theory Spec2Isabelle
  imports
    Main
    "HOL-Library.Word"
    "HOL-Library.Monad_Syntax"
    "HOL-Library.Product_Lexorder"
begin

unbundle bit_operations_syntax

section \<open>Packed integers (uint\_types.hpp)\<close>

text \<open>
  \<^verbatim>\<open>UIntPair<High_>\<close> stores a 32-bit \<^verbatim>\<open>low_\<close> part and a \<^verbatim>\<open>high_\<close> part of type
  \<^verbatim>\<open>High_\<close> (\<^verbatim>\<open>uint8_t\<close> for \<^verbatim>\<open>uint40_t\<close>, \<^verbatim>\<open>uint16_t\<close> for \<^verbatim>\<open>uint48_t\<close>).
  The fields are called \<open>low\<close> and \<open>high\<close> here, since an Isabelle name cannot
  end in an underscore.  The record is polymorphic in the type of the high part;
  every operation below fixes it to a word.
\<close>

record 'high UIntPair =
  low :: "32 word"
  high :: "'high"

type_synonym uint40_t = "8 word UIntPair"
type_synonym uint48_t = "16 word UIntPair"

text \<open>\<^verbatim>\<open>low_max()\<close> and \<^verbatim>\<open>high_max()\<close> return \<^verbatim>\<open>unsigned\<close>: the largest value of
  the part, all of its bits set.\<close>

definition low_max :: "32 word" where
  "low_max = mask 32"

definition high_max :: "'h::len itself \<Rightarrow> 32 word" where
  "high_max _ = mask LENGTH('h)"

definition low_bits :: nat where
  "low_bits = 32"

definition high_bits :: "'h::len itself \<Rightarrow> nat" where
  "high_bits _ = LENGTH('h)"

definition digits :: "'h::len itself \<Rightarrow> nat" where
  "digits h = low_bits + high_bits h"

text \<open>
  \<^verbatim>\<open>UIntPair(const unsigned long long &a)\<close>: both parts are masked out of \<open>a\<close>, and
  the body asserts that nothing of \<open>a\<close> lies above the packed width.  A failed
  assertion is the result \<open>None\<close>.
\<close>

definition UIntPair_of_ull :: "64 word \<Rightarrow> ('h::len) word UIntPair option" where
  "UIntPair_of_ull a =
     (if drop_bit (low_bits + high_bits TYPE('h)) a = 0
      then Some \<lparr> low = ucast (a AND ucast low_max),
                  high = ucast (drop_bit low_bits a AND ucast (high_max TYPE('h))) \<rparr>
      else None)"

text \<open>\<^verbatim>\<open>ull()\<close> and \<^verbatim>\<open>u64()\<close> have the same body.\<close>

definition ull :: "('h::len) word UIntPair \<Rightarrow> 64 word" where
  "ull p = push_bit low_bits (ucast (high p)) OR ucast (low p)"

definition u64 :: "('h::len) word UIntPair \<Rightarrow> 64 word" where
  "u64 p = push_bit low_bits (ucast (high p)) OR ucast (low p)"

text \<open>\<^verbatim>\<open>UIntPair::min()\<close> and \<^verbatim>\<open>UIntPair::max()\<close>, built with the two-part
  constructor from the limits of the parts.\<close>

definition UIntPair_min :: "('h::len) word UIntPair" where
  "UIntPair_min = \<lparr> low = 0, high = 0 \<rparr>"

definition UIntPair_max :: "('h::len) word UIntPair" where
  "UIntPair_max = \<lparr> low = mask 32, high = mask LENGTH('h) \<rparr>"

text \<open>Prefix \<^verbatim>\<open>operator++\<close> and \<^verbatim>\<open>operator--\<close> work on the parts directly.\<close>

definition op_preinc :: "('h::len) word UIntPair \<Rightarrow> 'h word UIntPair" where
  "op_preinc x =
     (if low x = low_max then \<lparr> low = 0, high = high x + 1 \<rparr>
      else \<lparr> low = low x + 1, high = high x \<rparr>)"

definition op_predec :: "('h::len) word UIntPair \<Rightarrow> 'h word UIntPair" where
  "op_predec x =
     (if low x = 0 then \<lparr> low = low_max, high = high x - 1 \<rparr>
      else \<lparr> low = low x - 1, high = high x \<rparr>)"

text \<open>
  \<^verbatim>\<open>operator+\<close> and \<^verbatim>\<open>operator-\<close>.  The low parts are combined in
  \<^verbatim>\<open>uint64_t\<close>.  The high parts are promoted to \<^verbatim>\<open>int\<close>, combined there, and the
  result is converted to \<^verbatim>\<open>uint64_t\<close> to add the carry: that is the 64-bit sum
  or difference of the zero-extended parts.  The cast to \<^verbatim>\<open>High\<close> truncates.
  Neither operator has an assertion.
\<close>

definition op_plus :: "('h::len) word UIntPair \<Rightarrow> 'h word UIntPair \<Rightarrow> 'h word UIntPair" where
  "op_plus x b =
     (let add = (ucast (low x) :: 64 word) + ucast (low b)
      in \<lparr> low = ucast (add AND ucast low_max),
           high = ucast ((ucast (high x) :: 64 word) + ucast (high b)
                          + (drop_bit low_bits add AND ucast (high_max TYPE('h)))) \<rparr>)"

definition op_minus :: "('h::len) word UIntPair \<Rightarrow> 'h word UIntPair \<Rightarrow> 'h word UIntPair" where
  "op_minus x b =
     (let sub = (ucast (low x) :: 64 word) - ucast (low b)
      in \<lparr> low = ucast (sub AND ucast low_max),
           high = ucast ((ucast (high x) :: 64 word) - ucast (high b)
                          + (drop_bit low_bits sub AND ucast (high_max TYPE('h)))) \<rparr>)"

text \<open>The comparison operators, part by part.\<close>

definition op_eq :: "('h::len) word UIntPair \<Rightarrow> 'h word UIntPair \<Rightarrow> bool" where
  "op_eq x b = (low x = low b \<and> high x = high b)"

definition op_ne :: "('h::len) word UIntPair \<Rightarrow> 'h word UIntPair \<Rightarrow> bool" where
  "op_ne x b = (low x \<noteq> low b \<or> high x \<noteq> high b)"

definition op_lt :: "('h::len) word UIntPair \<Rightarrow> 'h word UIntPair \<Rightarrow> bool" where
  "op_lt x b = (high x < high b \<or> (high x = high b \<and> low x < low b))"

definition op_le :: "('h::len) word UIntPair \<Rightarrow> 'h word UIntPair \<Rightarrow> bool" where
  "op_le x b = (high x < high b \<or> (high x = high b \<and> low x \<le> low b))"

definition op_gt :: "('h::len) word UIntPair \<Rightarrow> 'h word UIntPair \<Rightarrow> bool" where
  "op_gt x b = (high x > high b \<or> (high x = high b \<and> low x > low b))"

definition op_ge :: "('h::len) word UIntPair \<Rightarrow> 'h word UIntPair \<Rightarrow> bool" where
  "op_ge x b = (high x > high b \<or> (high x = high b \<and> low x \<ge> low b))"

section \<open>Flag policies (uint\_types.hpp)\<close>

text \<open>
  \<^verbatim>\<open>flag_type_bitset\<close> on a plain unsigned integer type \<open>T\<close> of \<open>LENGTH('a)\<close> bits.
  \<^verbatim>\<open>add_flag\<close> and \<^verbatim>\<open>conditional_add_flag\<close> return a \<open>T\<close>, so whatever the
  promoted expression computes is cut to \<open>T\<close>; the mask is bit \<open>LENGTH('a) - 1\<close>.
\<close>

definition add_flag :: "'a::len word \<Rightarrow> 'a word" where
  "add_flag t = t OR push_bit (LENGTH('a) - 1) 1"

definition conditional_add_flag :: "bool \<Rightarrow> 'a::len word \<Rightarrow> 'a word" where
  "conditional_add_flag b t = t OR push_bit (LENGTH('a) - 1) (of_bool b)"

text \<open>
  \<^verbatim>\<open>remove_flag\<close> returns \<^verbatim>\<open>(t << 1) >> 1\<close>.  For a type narrower than \<^verbatim>\<open>int\<close>
  (\<^verbatim>\<open>uint8_t\<close>, \<^verbatim>\<open>uint16_t\<close>) the operand is promoted to a 32-bit \<^verbatim>\<open>int\<close> before
  the shifts, so both shifts happen at 32 bits and only the returned value is
  cut to \<open>T\<close>; the promoted value is below \<open>2 ^ 17\<close>, where the signed and the
  unsigned shift agree.  For \<^verbatim>\<open>unsigned int\<close> and wider types the shifts happen
  in \<open>T\<close> itself.
\<close>

definition remove_flag :: "'a::len word \<Rightarrow> 'a word" where
  "remove_flag t =
     (if LENGTH('a) < 32
      then ucast (drop_bit 1 (push_bit 1 (ucast t :: 32 word)))
      else drop_bit 1 (push_bit 1 t))"

text \<open>\<^verbatim>\<open>is_flagged\<close>: the value, read as signed, is negative.\<close>

definition is_flagged :: "'a::len word \<Rightarrow> bool" where
  "is_flagged t = (sint t < 0)"

text \<open>
  The \<^verbatim>\<open>UIntPair\<close> overloads work on the high part.  \<^verbatim>\<open>remove_flag\<close> uses the
  compound assignments \<^verbatim>\<open>(t.high_ <<= 1) >>= 1\<close>, each of which stores its result
  in \<^verbatim>\<open>high_\<close> and so cuts it to the width of \<^verbatim>\<open>High\<close>.
\<close>

definition add_flag_pair :: "('h::len) word UIntPair \<Rightarrow> 'h word UIntPair" where
  "add_flag_pair t = t\<lparr> high := high t OR push_bit (LENGTH('h) - 1) 1 \<rparr>"

definition conditional_add_flag_pair :: "bool \<Rightarrow> ('h::len) word UIntPair \<Rightarrow> 'h word UIntPair" where
  "conditional_add_flag_pair b t = t\<lparr> high := high t OR push_bit (LENGTH('h) - 1) (of_bool b) \<rparr>"

definition remove_flag_pair :: "('h::len) word UIntPair \<Rightarrow> 'h word UIntPair" where
  "remove_flag_pair t = t\<lparr> high := drop_bit 1 (push_bit 1 (high t)) \<rparr>"

definition is_flagged_pair :: "('h::len) word UIntPair \<Rightarrow> bool" where
  "is_flagged_pair t = (sint (high t) < 0)"

text \<open>
  \<^verbatim>\<open>flag_type<use_flags>\<close> selects \<^verbatim>\<open>flag_type_bitset\<close> or \<^verbatim>\<open>flag_type_none\<close>, whose
  four functions do nothing.  The policy is the boolean \<open>use_flags\<close> here.
\<close>

definition F_conditional_add_flag :: "bool \<Rightarrow> bool \<Rightarrow> 'a::len word \<Rightarrow> 'a word" where
  "F_conditional_add_flag use_flags b t = (if use_flags then conditional_add_flag b t else t)"

definition F_remove_flag :: "bool \<Rightarrow> 'a::len word \<Rightarrow> 'a word" where
  "F_remove_flag use_flags t = (if use_flags then remove_flag t else t)"

definition F_is_flagged :: "bool \<Rightarrow> 'a::len word \<Rightarrow> bool" where
  "F_is_flagged use_flags t = (if use_flags then is_flagged t else False)"

section \<open>Views over the caller's memory (wrappers.hpp)\<close>

text \<open>
  \<^verbatim>\<open>text_type<value_type>\<close>: the adjusted length \<^verbatim>\<open>n\<close> (text length plus 2, a
  \<^verbatim>\<open>size_t\<close>) and the pointer to the caller's symbols, here the list of them.  The
  field \<^verbatim>\<open>n\<close> is called \<open>text_n\<close> (and \<open>sa_n\<close> below) to keep \<open>n\<close> free as a
  variable, and the field \<^verbatim>\<open>text\<close> is called \<open>text_buf\<close>.  \<^verbatim>\<open>operator[]\<close> returns a \<^verbatim>\<open>uint128_t\<close>.  It reads \<^verbatim>\<open>text[i - 1]\<close> only
  under its guard, which for a well-formed view (\<open>text_n\<close> is the length of the
  list plus 2) is inside the list.
\<close>

record 'v text_type =
  text_n :: "64 word"
  text_buf :: "'v list"

definition text_at :: "('v::len) word text_type \<Rightarrow> 64 word \<Rightarrow> 128 word" where
  "text_at t i =
     (if i > 0 \<and> i < text_n t - 1 then ucast (text_buf t ! unat (i - 1)) + 1 else 0)"

text \<open>
  \<^verbatim>\<open>sa_type<index_type>\<close> with \<^verbatim>\<open>index_type = unsigned int\<close>, as the demo
  instantiates it: the caller's buffer \<^verbatim>\<open>sa\<close> and the two side slots \<^verbatim>\<open>sa01\<close>.
  \<^verbatim>\<open>operator[]\<close> returns a reference; reading and writing through it are
  \<open>sa_get\<close> and \<open>sa_set\<close>.  An index above 1 addresses \<^verbatim>\<open>sa[i - 2]\<close> in the
  caller's buffer; outside the buffer the C++ is undefined, which is the
  result \<open>None\<close>.
\<close>

record sa_type =
  sa_n :: "64 word"
  sa :: "32 word list"
  sa01 :: "32 word list"

definition sa_get :: "sa_type \<Rightarrow> 64 word \<Rightarrow> 32 word option" where
  "sa_get s i =
     (if i > 1
      then (if unat (i - 2) < length (sa s) then Some (sa s ! unat (i - 2)) else None)
      else Some (sa01 s ! unat i))"

definition sa_set :: "sa_type \<Rightarrow> 64 word \<Rightarrow> 32 word \<Rightarrow> sa_type option" where
  "sa_set s i v =
     (if i > 1
      then (if unat (i - 2) < length (sa s)
            then Some (s\<lparr> sa := (sa s)[unat (i - 2) := v] \<rparr>) else None)
      else Some (s\<lparr> sa01 := (sa01 s)[unat i := v] \<rparr>))"

section \<open>Counted iteration\<close>

text \<open>
  \<^verbatim>\<open>for (i = lo; i < hi; ++i) body\<close> over a state, where the body may fail.  The
  counter never wraps: it stays below \<open>hi\<close>.  Each \<^verbatim>\<open>omp parallel for\<close> loop of
  the source touches a different element in every iteration, so running it in
  index order gives the result of every schedule.
\<close>

definition for_loop :: "nat \<Rightarrow> nat \<Rightarrow> (nat \<Rightarrow> 's \<Rightarrow> 's option) \<Rightarrow> 's \<Rightarrow> 's option" where
  "for_loop lo hi body s = fold (\<lambda>i r. Option.bind r (body i)) [lo..<hi] (Some s)"

section \<open>Phase 0: bucketing by the first symbol (parallel-for-lce/gsaca-ds-par.hpp)\<close>

text \<open>
  Modelled from the spec: \<^verbatim>\<open>ips4o::parallel::sort\<close> (ips4o.hpp is not under src/),
  ``a parallel comparison sort over a half-open range given a
  strict-weak-ordering predicate''.  It is an insertion sort by the predicate
  here; the predicate \<open>comp\<close> below orders different indices strictly, so every
  correct sort returns the same list.
\<close>

fun insert_by :: "('a \<Rightarrow> 'a \<Rightarrow> bool) \<Rightarrow> 'a \<Rightarrow> 'a list \<Rightarrow> 'a list" where
  "insert_by lt x [] = [x]"
| "insert_by lt x (y # ys) = (if lt y x then y # insert_by lt x ys else x # y # ys)"

definition ips4o_sort :: "('a \<Rightarrow> 'a \<Rightarrow> bool) \<Rightarrow> 'a list \<Rightarrow> 'a list" where
  "ips4o_sort lt xs = foldr (insert_by lt) xs []"

text \<open>The call \<^verbatim>\<open>sort(&(sa.sa[0]), &(sa.sa[k]), comp)\<close> on the caller's buffer.\<close>

definition sort_caller_range :: "(32 word \<Rightarrow> 32 word \<Rightarrow> bool) \<Rightarrow> sa_type \<Rightarrow> 32 word \<Rightarrow> sa_type option" where
  "sort_caller_range lt s k =
     (if unat k \<le> length (sa s)
      then Some (s\<lparr> sa := ips4o_sort lt (take (unat k) (sa s)) @ drop (unat k) (sa s) \<rparr>)
      else None)"

text \<open>The lambda \<^verbatim>\<open>comp\<close>: by first symbol, then by position.\<close>

definition comp :: "8 word text_type \<Rightarrow> 32 word \<Rightarrow> 32 word \<Rightarrow> bool" where
  "comp t a b =
     (let extracted1 = text_at t (ucast a);
          extracted2 = text_at t (ucast b)
      in extracted1 < extracted2 \<or> (extracted1 = extracted2 \<and> a < b))"

text \<open>
  Modelled from the spec: \<^verbatim>\<open>p1_group_type\<close>, the element type of
  \<^verbatim>\<open>phase_1_stack_type\<close> (phase\_1.hpp is not under src/): ``(left border offset,
  size, shared rank/depth, "sorted" flag, "final" flag)'', in the order of the
  initialiser \<^verbatim>\<open>{left_border, gsize, 1, true, false}\<close>.
\<close>

record p1_group_type =
  group_left :: "32 word"
  group_size :: "32 word"
  group_depth :: "32 word"
  group_sorted :: bool
  group_final :: bool

text \<open>
  \<^verbatim>\<open>sort_by_prefix_parallel<buffer_type, F>\<close> with \<^verbatim>\<open>count_type = uint32_t\<close> (the
  index and buffer types are 4 bytes wide).  \<open>use_flags\<close> stands for \<open>F\<close>.  Each
  loop counter is a natural below their 32-bit bounds, converted where the
  source uses them as values.  The thread count only sets the schedule and is
  left out.
\<close>

definition fill_step :: "nat \<Rightarrow> sa_type \<Rightarrow> sa_type option" where
  "fill_step i s = sa_set s (ucast ((of_nat i :: 32 word) + 1)) (of_nat i)"

definition gsize_step ::
  "8 word text_type \<Rightarrow> sa_type \<Rightarrow> nat
   \<Rightarrow> p1_group_type list \<times> 32 word \<times> 32 word
   \<Rightarrow> (p1_group_type list \<times> 32 word \<times> 32 word) option" where
  "gsize_step t s i st =
     (case st of (result, left_border, gsize) \<Rightarrow>
        do {
          a \<leftarrow> sa_get s (ucast (of_nat i :: 32 word));
          b \<leftarrow> sa_get s (ucast ((of_nat i :: 32 word) + 1));
          if text_at t (ucast a) = text_at t (ucast b)
          then Some (result, left_border, gsize + 1)
          else Some (result @ [\<lparr> group_left = left_border, group_size = gsize, group_depth = 1,
                                  group_sorted = True, group_final = False \<rparr>],
                     (of_nat i :: 32 word) + 1, 1)
        })"

definition flag_step :: "bool \<Rightarrow> 8 word text_type \<Rightarrow> nat \<Rightarrow> sa_type \<Rightarrow> sa_type option" where
  "flag_step use_flags t i s =
     do {
       idx \<leftarrow> sa_get s (ucast (of_nat i :: 32 word));
       sa_set s (ucast (of_nat i :: 32 word))
         (if idx \<noteq> 0
          then F_conditional_add_flag use_flags (text_at t (ucast (idx - 1)) < text_at t (ucast idx)) idx
          else idx)
     }"

definition sort_by_prefix_parallel ::
  "bool \<Rightarrow> 8 word text_type \<Rightarrow> sa_type \<Rightarrow> (p1_group_type list \<times> sa_type) option" where
  "sort_by_prefix_parallel use_flags t s0 =
     do {
       let n = (ucast (text_n t) :: 32 word);
       s \<leftarrow> sa_set s0 0 0;
       s \<leftarrow> sa_set s 1 (n - 1);
       s \<leftarrow> for_loop 1 (unat (n - 1)) fill_step s;
       s \<leftarrow> sort_caller_range (comp t) s (n - 2);
       (result, left_border, gsize) \<leftarrow> for_loop 2 (unat (n - 1)) (gsize_step t s) ([], 2, 1);
       let result = result @ [\<lparr> group_left = left_border, group_size = gsize, group_depth = 1,
                                 group_sorted = True, group_final = False \<rparr>];
       s \<leftarrow> for_loop 0 (unat n) (flag_step use_flags t) s;
       s \<leftarrow> sa_set s 0 (n - 1);
       s \<leftarrow> sa_set s 1 0;
       Some (result, s)
     }"

section \<open>The entry points (parallel-for-lce/gsaca-ds-par.hpp)\<close>

text \<open>
  The body of the last loop of \<^verbatim>\<open>gsaca_for_lce_wrapped\<close>, \<^verbatim>\<open>--sa[i]\<close>.
\<close>

definition decrement_step :: "nat \<Rightarrow> sa_type \<Rightarrow> sa_type option" where
  "decrement_step i s =
     do {
       v \<leftarrow> sa_get s (of_nat i);
       sa_set s (of_nat i) (v - 1)
     }"

text \<open>
  \<^verbatim>\<open>gsaca_for_lce_wrapped<buffer_type, use_flags>\<close>.  It calls
  \<^verbatim>\<open>phase_1_by_sorting_parallel_for_lce<F>\<close> and
  \<^verbatim>\<open>phase_2_by_sorting_stable_parallel_for_lce<F>\<close>, whose files phase\_1.hpp and
  phase\_2.hpp are not under src/.  The two functions are parameters here.  Both
  take the suffix array and the rank table by reference and so return them;
  phase 1 also returns the groups for phase 2, of a type \<open>'g\<close> that phase\_1.hpp
  declares.  \<^verbatim>\<open>malloc\<close> returns \<^verbatim>\<open>n\<close> entries of unspecified content for \<^verbatim>\<open>isa\<close>,
  zeros here.  The thread settings are left out.
\<close>

definition gsaca_for_lce_wrapped ::
  "(bool \<Rightarrow> sa_type \<Rightarrow> 32 word list \<Rightarrow> p1_group_type list \<Rightarrow> ('g \<times> sa_type \<times> 32 word list) option)
   \<Rightarrow> (bool \<Rightarrow> sa_type \<Rightarrow> 32 word list \<Rightarrow> 'g \<Rightarrow> (sa_type \<times> 32 word list) option)
   \<Rightarrow> bool \<Rightarrow> 8 word text_type \<Rightarrow> sa_type \<Rightarrow> sa_type option" where
  "gsaca_for_lce_wrapped phase_1_by_sorting_parallel_for_lce
       phase_2_by_sorting_stable_parallel_for_lce use_flags t s0 =
     do {
       let n = text_n t;
       (p1_input_groups, s) \<leftarrow> sort_by_prefix_parallel use_flags t s0;
       let isa = replicate (unat n) (0 :: 32 word);
       (p2_input_groups, s, isa) \<leftarrow>
         phase_1_by_sorting_parallel_for_lce use_flags s isa p1_input_groups;
       (s, isa) \<leftarrow> phase_2_by_sorting_stable_parallel_for_lce use_flags s isa p2_input_groups;
       for_loop 0 (unat n) decrement_step s
     }"

text \<open>
  \<^verbatim>\<open>gsaca_for_lce(text, sa, n, threads)\<close> wraps the caller's pointers into the two
  views of adjusted length \<^verbatim>\<open>n + 2\<close> and calls the wrapped function without
  flags.  The result is the caller's buffer afterwards.
\<close>

definition gsaca_for_lce ::
  "(bool \<Rightarrow> sa_type \<Rightarrow> 32 word list \<Rightarrow> p1_group_type list \<Rightarrow> ('g \<times> sa_type \<times> 32 word list) option)
   \<Rightarrow> (bool \<Rightarrow> sa_type \<Rightarrow> 32 word list \<Rightarrow> 'g \<Rightarrow> (sa_type \<times> 32 word list) option)
   \<Rightarrow> 8 word list \<Rightarrow> 32 word list \<Rightarrow> 64 word \<Rightarrow> 32 word list option" where
  "gsaca_for_lce phase_1_by_sorting_parallel_for_lce
       phase_2_by_sorting_stable_parallel_for_lce text_ptr sa_ptr n =
     do {
       let textprime = \<lparr> text_n = n + 2, text_buf = text_ptr \<rparr>;
       let saprime = \<lparr> sa_n = n + 2, sa = sa_ptr, sa01 = [0, 0] \<rparr>;
       s \<leftarrow> gsaca_for_lce_wrapped phase_1_by_sorting_parallel_for_lce
              phase_2_by_sorting_stable_parallel_for_lce False textprime saprime;
       Some (sa s)
     }"

section \<open>Notions used in the proofs\<close>

text \<open>The logical suffix array: the two side slots, then the caller's buffer.\<close>

definition logical :: "sa_type \<Rightarrow> 32 word list" where
  "logical s = sa01 s @ sa s"

text \<open>The state of the fill loop before iteration \<open>i\<close>: the side slots are seeded with 0
  and \<open>hv\<close>, and the entries \<open>2, \<dots>, i\<close> hold the positions \<open>1, \<dots>, i - 1\<close>.\<close>

definition filled :: "nat \<Rightarrow> nat \<Rightarrow> 32 word \<Rightarrow> sa_type \<Rightarrow> bool" where
  "filled n i hv s \<longleftrightarrow>
     length (sa01 s) = 2 \<and> length (logical s) = n \<and> unat (sa_n s) = n
     \<and> logical s ! 0 = 0 \<and> logical s ! 1 = hv
     \<and> (\<forall>k. 1 \<le> k \<and> k < i \<longrightarrow> logical s ! Suc k = of_nat k)"

text \<open>The key whose order is the predicate \<open>comp\<close>.\<close>

definition comp_key :: "8 word text_type \<Rightarrow> 32 word \<Rightarrow> 128 word \<times> 32 word" where
  "comp_key t a = (text_at t (ucast a), a)"

text \<open>Index \<open>j\<close> starts the run of equal values of \<open>V\<close> that reaches index \<open>k\<close>; runs start
  at index 2, the first entry of the caller's buffer.\<close>

definition run_start :: "(nat \<Rightarrow> 'v) \<Rightarrow> nat \<Rightarrow> nat \<Rightarrow> bool" where
  "run_start V j k \<longleftrightarrow>
     2 \<le> j \<and> j \<le> k \<and> (\<forall>m. j \<le> m \<and> m \<le> k \<longrightarrow> V m = V k) \<and> (j = 2 \<or> V (j - 1) \<noteq> V j)"

text \<open>The indices a group covers, and a list of groups that covers the indices from 2 up to
  \<open>hi\<close> in order, each group starting at the start of the run of its members.\<close>

definition group_range :: "p1_group_type \<Rightarrow> nat list" where
  "group_range g = [unat (group_left g)..<unat (group_left g) + unat (group_size g)]"

definition groups_cover :: "(nat \<Rightarrow> 'v) \<Rightarrow> p1_group_type list \<Rightarrow> nat \<Rightarrow> bool" where
  "groups_cover V G hi \<longleftrightarrow>
     concat (map group_range G) = [2..<hi]
     \<and> (\<forall>g \<in> set G. \<forall>k \<in> set (group_range g). run_start V (unat (group_left g)) k)"

text \<open>The state of the group loop before iteration \<open>i\<close>: the finished groups cover the
  indices below \<open>left_border\<close>, and the open group reaches from \<open>left_border\<close> to \<open>i\<close>.\<close>

definition gsize_inv ::
  "(nat \<Rightarrow> 'v) \<Rightarrow> nat \<Rightarrow> p1_group_type list \<times> 32 word \<times> 32 word \<Rightarrow> bool" where
  "gsize_inv V i st \<longleftrightarrow>
     (case st of (result, left_border, gsize) \<Rightarrow>
        unat left_border + unat gsize = Suc i \<and> 2 \<le> unat left_border \<and> 1 \<le> unat gsize
        \<and> groups_cover V result (unat left_border)
        \<and> (\<forall>k. unat left_border \<le> k \<and> k \<le> i \<longrightarrow> run_start V (unat left_border) k))"

text \<open>The first symbol, through the text view, of the suffix at entry \<open>k\<close>.\<close>

definition view_at :: "8 word text_type \<Rightarrow> sa_type \<Rightarrow> nat \<Rightarrow> 128 word" where
  "view_at t s k = text_at t (ucast (logical s ! k))"

text \<open>What the flag loop stores for the entry \<open>idx\<close>, and the state of that loop before
  iteration \<open>i\<close>.\<close>

definition flag_fn :: "bool \<Rightarrow> 8 word text_type \<Rightarrow> 32 word \<Rightarrow> 32 word" where
  "flag_fn use_flags t idx =
     (if idx \<noteq> 0
      then F_conditional_add_flag use_flags (text_at t (ucast (idx - 1)) < text_at t (ucast idx)) idx
      else idx)"

definition flagged_upto :: "bool \<Rightarrow> 8 word text_type \<Rightarrow> 32 word list \<Rightarrow> nat \<Rightarrow> sa_type \<Rightarrow> bool" where
  "flagged_upto use_flags t L i s \<longleftrightarrow>
     length (sa01 s) = 2 \<and> length (sa s) + 2 = length L \<and> unat (sa_n s) = length L
     \<and> logical s = map (flag_fn use_flags t) (take i L) @ drop i L"

text \<open>The caller's buffer after the sort of phase 0: the positions \<open>1, \<dots>, n - 2\<close> ordered by
  first symbol, then position.\<close>

definition bucket_order :: "8 word text_type \<Rightarrow> nat \<Rightarrow> 32 word list" where
  "bucket_order t n = ips4o_sort (comp t) (map of_nat [1..<n - 1])"

text \<open>The state of a loop that replaces each entry \<open>v\<close> by \<open>f v\<close>, before iteration \<open>i\<close>.\<close>

definition rewritten_upto :: "(32 word \<Rightarrow> 32 word) \<Rightarrow> 32 word list \<Rightarrow> nat \<Rightarrow> sa_type \<Rightarrow> bool" where
  "rewritten_upto f L i s \<longleftrightarrow>
     length (sa01 s) = 2 \<and> unat (sa_n s) = length L
     \<and> logical s = map f (take i L) @ drop i L"

section \<open>The packed integers and the flags, verified\<close>

lemma drop_bit_zero_bit:
  fixes a :: "'a::len word"
  assumes "drop_bit k a = 0" "bit a n"
  shows "n < k"
proof (rule ccontr)
  assume "\<not> n < k"
  then obtain m where "n = k + m" by (metis le_Suc_ex not_less)
  with assms(2) have "bit (drop_bit k a) m" by (simp add: bit_drop_bit_eq)
  with assms(1) show False by simp
qed

lemma ull_of_ull:
  fixes a :: "64 word"
  assumes "LENGTH('h::len) \<le> 32" "drop_bit (32 + LENGTH('h)) a = 0"
  shows "\<exists>p :: 'h word UIntPair. UIntPair_of_ull a = Some p \<and> ull p = a \<and> u64 p = a"
proof -
  have "push_bit 32 (ucast (ucast (drop_bit 32 a AND ucast (mask LENGTH('h) :: 32 word)) :: 'h word))
          OR ucast (ucast (a AND ucast (mask 32 :: 32 word)) :: 32 word) = a"
    using assms by (intro bit_word_eqI) (auto simp add: bit_simps dest: drop_bit_zero_bit)
  with assms(2) show ?thesis
    by (simp add: UIntPair_of_ull_def ull_def u64_def low_max_def high_max_def low_bits_def high_bits_def)
qed

lemma unat_high_bound:
  fixes h :: "'h::len word"
  assumes "LENGTH('h) \<le> 32"
  shows "unat h < 2 ^ 32"
proof -
  have "unat h < 2 ^ LENGTH('h)" by (rule unsigned_less)
  also have "(2::nat) ^ LENGTH('h) \<le> 2 ^ 32" using assms by (intro power_increasing) simp_all
  finally show ?thesis .
qed

lemma unat_ull:
  fixes p :: "'h::len word UIntPair"
  assumes "LENGTH('h) \<le> 32"
  shows "unat (ull p) = unat (high p) * 2 ^ 32 + unat (low p)"
proof -
  have eq: "push_bit 32 (ucast (high p) :: 64 word) OR ucast (low p) = push_bit 32 (ucast (high p)) + ucast (low p)"
    by (rule disjunctive_add_eq_or [symmetric]) (auto simp add: bit_eq_iff bit_simps dest: bit_imp_le_length)
  have h: "unat (high p) < 2 ^ 32" using assms by (rule unat_high_bound)
  have l: "unat (low p) < 2 ^ 32" using unsigned_less [of "low p"] by simp
  have "unat (high p) * 4294967296 + unat (low p) < 18446744073709551616"
    using h l by simp
  then show ?thesis
    unfolding ull_def low_bits_def eq
    using h l
    by (simp add: unat_word_ariths unsigned_push_bit_eq unsigned_ucast_eq take_bit_eq_mod push_bit_eq_mult)
qed


lemma int_take_bit_add_right:
  fixes A B :: int
  assumes "m \<le> n"
  shows "take_bit m (A + take_bit n B) = take_bit m (A + B)"
proof -
  have "take_bit m (A + take_bit n B) = take_bit m (take_bit m A + take_bit m (take_bit n B))"
    by (rule take_bit_add [symmetric])
  also have "take_bit m (take_bit n B) = take_bit m B"
    using assms by (simp add: min_def)
  also have "take_bit m (take_bit m A + take_bit m B) = take_bit m (A + B)"
    by (rule take_bit_add)
  finally show ?thesis .
qed

lemma word_take_bit_add_right:
  fixes a b :: "'a::len word"
  shows "take_bit n (a + take_bit n b) = take_bit n (a + b)"
proof -
  have "uint (take_bit n (a + take_bit n b)) = uint (take_bit n (a + b))"
    by (simp add: unsigned_take_bit_eq uint_word_arith_bintrs(1) int_take_bit_add_right)
  then show ?thesis by (rule word_uint_eqI)
qed

lemma ull_alt:
  fixes p :: "'h::len word UIntPair"
  shows "ull p = push_bit 32 (ucast (high p)) + ucast (low p)"
  unfolding ull_def low_bits_def
  by (rule disjunctive_add_eq_or [symmetric]) (auto simp add: bit_eq_iff bit_simps dest: bit_imp_le_length)

lemma ull_narrow:
  fixes X B :: "64 word"
  assumes "LENGTH('h::len) \<le> 32"
  shows "ull \<lparr> low = ucast (B AND ucast low_max),
              high = (ucast (X + (drop_bit low_bits B AND ucast (high_max TYPE('h)))) :: 'h word) \<rparr>
         = take_bit (32 + LENGTH('h)) (push_bit 32 X + B)"
proof -
  have B: "B = push_bit 32 (drop_bit 32 B) + take_bit 32 B"
    by (simp add: bits_ident)
  have split: "push_bit 32 X + B = push_bit 32 (X + drop_bit 32 B) + take_bit 32 B"
    by (subst B) (simp add: push_bit_add)
  have disj: "push_bit 32 Y + take_bit 32 B = push_bit 32 Y OR take_bit 32 B" for Y :: "64 word"
    by (rule disjunctive_add_eq_or) (auto simp add: bit_eq_iff bit_simps)
  have tb: "take_bit (32 + LENGTH('h)) (push_bit 32 Y + take_bit 32 B)
            = push_bit 32 (take_bit LENGTH('h) Y) + take_bit 32 B" for Y :: "64 word"
    unfolding disj by (rule bit_word_eqI) (auto simp add: bit_simps)
  have hi: "take_bit LENGTH('h) (X + (drop_bit 32 B AND mask LENGTH('h)))
            = take_bit LENGTH('h) (X + drop_bit 32 B)"
    unfolding take_bit_eq_mask [symmetric] by (rule word_take_bit_add_right)
  have uc: "(ucast (ucast Y :: 'h word) :: 64 word) = take_bit LENGTH('h) Y" for Y :: "64 word"
    by (rule bit_word_eqI) (auto simp add: bit_simps)
  have m1: "(ucast (mask 32 :: 32 word) :: 64 word) = mask 32"
    by (rule bit_word_eqI) (auto simp add: bit_simps)
  have m2: "(ucast (mask LENGTH('h) :: 32 word) :: 64 word) = mask LENGTH('h)"
    using assms by (intro bit_word_eqI) (auto simp add: bit_simps)
  have lo: "(ucast (ucast (B AND mask 32) :: 32 word) :: 64 word) = take_bit 32 B"
    by (rule bit_word_eqI) (auto simp add: bit_simps)
  show ?thesis
    by (simp add: ull_alt low_max_def high_max_def low_bits_def m1 m2 uc lo hi split tb)
qed

lemma ull_op_plus:
  fixes x b :: "'h::len word UIntPair"
  assumes "LENGTH('h) \<le> 32"
  shows "ull (op_plus x b) = take_bit (32 + LENGTH('h)) (ull x + ull b)"
  unfolding op_plus_def Let_def ull_narrow [OF assms]
  by (simp add: ull_alt push_bit_add ac_simps)

lemma ull_op_minus:
  fixes x b :: "'h::len word UIntPair"
  assumes "LENGTH('h) \<le> 32"
  shows "ull (op_minus x b) = take_bit (32 + LENGTH('h)) (ull x - ull b)"
proof -
  have pb: "push_bit 32 (A - B) = push_bit 32 A - push_bit 32 B" for A B :: "64 word"
    by (simp add: push_bit_eq_mult left_diff_distrib)
  have "ull (op_minus x b) = take_bit (32 + LENGTH('h))
          (push_bit 32 (ucast (high x) - ucast (high b)) + (ucast (low x) - ucast (low b)))"
    unfolding op_minus_def Let_def by (rule ull_narrow [OF assms])
  also have "push_bit 32 (ucast (high x) - ucast (high b)) + (ucast (low x) - ucast (low b))
             = ull x - ull b"
    unfolding ull_alt pb by simp
  finally show ?thesis .
qed


lemma ucast_narrow_add:
  fixes x y :: "'a::len word"
  assumes "LENGTH('b::len) \<le> LENGTH('a)"
  shows "(ucast (x + y) :: 'b word) = ucast x + ucast y"
proof -
  have "uint (ucast (x + y) :: 'b word) = uint ((ucast x :: 'b word) + ucast y)"
    using assms
    by (simp add: unsigned_ucast_eq uint_word_arith_bintrs(1) min_def take_bit_add)
  then show ?thesis by (rule word_uint_eqI)
qed

lemma ucast_narrow_diff:
  fixes x y :: "'a::len word"
  assumes "LENGTH('b::len) \<le> LENGTH('a)"
  shows "(ucast (x - y) :: 'b word) = ucast x - ucast y"
proof -
  have "uint (ucast (x - y) :: 'b word) = uint ((ucast x :: 'b word) - ucast y)"
    using assms
    by (simp add: unsigned_ucast_eq uint_word_arith_bintrs(2) min_def take_bit_diff)
  then show ?thesis by (rule word_uint_eqI)
qed

lemma ucast_and_mask_narrow:
  fixes w :: "64 word"
  shows "(ucast (w AND ucast low_max) :: 32 word) = ucast w"
  unfolding low_max_def by (rule bit_word_eqI) (auto simp add: bit_simps)

lemma ucast_ucast_32_64: "(ucast (ucast (l :: 32 word) :: 64 word) :: 32 word) = l"
  by (rule bit_word_eqI) (auto simp add: bit_simps)

lemma ucast_ucast_h_64:
  fixes h :: "'h::len word"
  assumes "LENGTH('h) \<le> 32"
  shows "(ucast (ucast h :: 64 word) :: 'h word) = h"
  using assms by (intro bit_word_eqI) (auto simp add: bit_simps)

lemma carry_of_low_inc:
  fixes l :: "32 word"
  shows "drop_bit 32 ((ucast l :: 64 word) + 1) = (if l = mask 32 then 1 else 0)"
proof -
  have l: "unat l < 2 ^ 32" using unsigned_less [of l] by simp
  have u: "unat ((ucast l :: 64 word) + 1) = unat l + 1"
    using l by (simp add: unat_word_ariths unsigned_ucast_eq take_bit_eq_mod)
  have "unat (drop_bit 32 ((ucast l :: 64 word) + 1)) = (unat l + 1) div 2 ^ 32"
    by (subst unat_drop_bit_eq, subst u, simp add: drop_bit_eq_div)
  also have "\<dots> = (if unat l = 2 ^ 32 - 1 then 1 else 0)"
    using l by (auto simp add: div_eq_0_iff) 
  also have "unat l = 2 ^ 32 - 1 \<longleftrightarrow> l = mask 32"
    by (simp add: word_unat_eq_iff mask_eq_exp_minus_1)
  finally show ?thesis by (simp add: word_unat_eq_iff split: if_splits)
qed


lemma borrow_of_low_dec:
  fixes l :: "32 word"
  shows "drop_bit 32 ((ucast l :: 64 word) - 1) = (if l = 0 then mask 32 else 0)"
proof (cases "l = 0")
  case True
  have "drop_bit 32 (- 1 :: 64 word) = mask 32"
    by (rule bit_word_eqI) (auto simp add: bit_simps)
  with True show ?thesis by simp
next
  case False
  then have l: "0 < unat l" "unat l < 2 ^ 32"
    using unsigned_less [of l] by (simp_all add: unat_gt_0)
  have u: "unat ((ucast l :: 64 word) - 1) = unat l - 1"
    using l by (simp add: unat_sub_if_size unsigned_ucast_eq take_bit_eq_mod word_size)
  have "unat (drop_bit 32 ((ucast l :: 64 word) - 1)) = (unat l - 1) div 2 ^ 32"
    by (subst unat_drop_bit_eq, subst u, simp add: drop_bit_eq_div)
  also have "\<dots> = 0" using l by simp
  finally show ?thesis using False by (simp add: word_unat_eq_iff)
qed

lemma op_preinc_op_plus:
  fixes x :: "'h::len word UIntPair"
  assumes "LENGTH('h) \<le> 32"
  shows "op_preinc x = op_plus x \<lparr> low = 1, high = 0 \<rparr>"
proof -
  have h64: "LENGTH('h) \<le> LENGTH(64)" using assms by simp
  have lo: "(ucast ((ucast (low x) :: 64 word) + 1) :: 32 word) = low x + 1"
    by (simp add: ucast_narrow_add ucast_ucast_32_64)
  have m: "(ucast (mask LENGTH('h) :: 32 word) :: 64 word) = mask LENGTH('h)"
    using assms by (intro bit_word_eqI) (auto simp add: bit_simps)
  have one: "(1 :: 64 word) AND mask LENGTH('h) = 1"
    by (rule bit_word_eqI) (auto simp add: bit_simps)
  have hi: "(ucast ((ucast (high x) :: 64 word) + c) :: 'h word) = high x + ucast c" for c
    by (simp add: ucast_narrow_add [OF h64] ucast_ucast_h_64 [OF assms])
  have eq: "op_plus x \<lparr> low = 1, high = 0 \<rparr>
            = \<lparr> low = low x + 1, high = high x + (if low x = mask 32 then 1 else 0) \<rparr>"
    by (simp add: op_plus_def Let_def ucast_and_mask_narrow lo hi low_bits_def
        carry_of_low_inc high_max_def m one)
  show ?thesis
    unfolding eq by (simp add: op_preinc_def low_max_def mask_eq_exp_minus_1)
qed

lemma op_predec_op_minus:
  fixes x :: "'h::len word UIntPair"
  assumes "LENGTH('h) \<le> 32"
  shows "op_predec x = op_minus x \<lparr> low = 1, high = 0 \<rparr>"
proof -
  have h64: "LENGTH('h) \<le> LENGTH(64)" using assms by simp
  have lo: "(ucast ((ucast (low x) :: 64 word) - 1) :: 32 word) = low x - 1"
    by (simp add: ucast_narrow_diff ucast_ucast_32_64)
  have m: "(ucast (mask LENGTH('h) :: 32 word) :: 64 word) = mask LENGTH('h)"
    using assms by (intro bit_word_eqI) (auto simp add: bit_simps)
  have mm: "(mask 32 :: 64 word) AND mask LENGTH('h) = mask LENGTH('h)"
    using assms by (intro bit_word_eqI) (auto simp add: bit_simps)
  have um: "(ucast (mask LENGTH('h) :: 64 word) :: 'h word) = - 1"
    using assms by (intro bit_word_eqI) (auto simp add: bit_simps)
  have hi: "(ucast ((ucast (high x) :: 64 word) + c) :: 'h word) = high x + ucast c" for c
    by (simp add: ucast_narrow_add [OF h64] ucast_ucast_h_64 [OF assms])
  have eq: "op_minus x \<lparr> low = 1, high = 0 \<rparr>
            = \<lparr> low = low x - 1, high = high x + (if low x = 0 then - 1 else 0) \<rparr>"
    by (simp add: op_minus_def Let_def ucast_and_mask_narrow lo hi low_bits_def
        borrow_of_low_dec high_max_def m mm um)
  show ?thesis
    unfolding eq by (simp add: op_predec_def low_max_def mask_eq_exp_minus_1)
qed

lemma ull_one: "ull (\<lparr> low = 1, high = 0 \<rparr> :: 'h::len word UIntPair) = 1"
  by (simp add: ull_alt)

lemma ull_op_preinc:
  fixes x :: "'h::len word UIntPair"
  assumes "LENGTH('h) \<le> 32"
  shows "ull (op_preinc x) = take_bit (32 + LENGTH('h)) (ull x + 1)"
  by (simp add: op_preinc_op_plus [OF assms] ull_op_plus [OF assms] ull_one)

lemma ull_op_predec:
  fixes x :: "'h::len word UIntPair"
  assumes "LENGTH('h) \<le> 32"
  shows "ull (op_predec x) = take_bit (32 + LENGTH('h)) (ull x - 1)"
  by (simp add: op_predec_op_minus [OF assms] ull_op_minus [OF assms] ull_one)

lemma ull_less_iff:
  fixes x b :: "'h::len word UIntPair"
  assumes "LENGTH('h) \<le> 32"
  shows "ull x < ull b \<longleftrightarrow> high x < high b \<or> (high x = high b \<and> low x < low b)"
proof -
  have l: "unat (low x) < 2 ^ 32" "unat (low b) < 2 ^ 32"
    using unsigned_less [of "low x"] unsigned_less [of "low b"] by simp_all
  have "unat (high x) * 2 ^ 32 + unat (low x) < unat (high b) * 2 ^ 32 + unat (low b)
        \<longleftrightarrow> unat (high x) < unat (high b) \<or> (unat (high x) = unat (high b) \<and> unat (low x) < unat (low b))"
    using l by (cases "unat (high x)" "unat (high b)" rule: linorder_cases) auto
  then show ?thesis
    by (simp add: word_less_nat_alt unat_ull [OF assms] word_unat_eq_iff)
qed

lemma ull_eq_iff:
  fixes x b :: "'h::len word UIntPair"
  assumes "LENGTH('h) \<le> 32"
  shows "ull x = ull b \<longleftrightarrow> low x = low b \<and> high x = high b"
proof -
  have l: "unat (low x) < 2 ^ 32" "unat (low b) < 2 ^ 32"
    using unsigned_less [of "low x"] unsigned_less [of "low b"] by simp_all
  have "unat (high x) * 2 ^ 32 + unat (low x) = unat (high b) * 2 ^ 32 + unat (low b)
        \<longleftrightarrow> unat (high x) = unat (high b) \<and> unat (low x) = unat (low b)"
    using l by (cases "unat (high x)" "unat (high b)" rule: linorder_cases) auto
  then show ?thesis
    by (auto simp add: unat_ull [OF assms] word_unat_eq_iff)
qed

lemma compare_refines:
  fixes x b :: "'h::len word UIntPair"
  assumes "LENGTH('h) \<le> 32"
  shows "op_eq x b = (ull x = ull b)" "op_ne x b = (ull x \<noteq> ull b)"
    "op_lt x b = (ull x < ull b)" "op_le x b = (ull x \<le> ull b)"
    "op_gt x b = (ull x > ull b)" "op_ge x b = (ull x \<ge> ull b)"
proof -
  show "op_eq x b = (ull x = ull b)"
    by (simp add: op_eq_def ull_eq_iff [OF assms])
  show "op_ne x b = (ull x \<noteq> ull b)"
    by (simp add: op_ne_def ull_eq_iff [OF assms])
  show "op_lt x b = (ull x < ull b)"
    by (simp add: op_lt_def ull_less_iff [OF assms])
  show "op_gt x b = (ull x > ull b)"
    by (simp add: op_gt_def ull_less_iff [OF assms] eq_commute)
  have "ull x \<le> ull b \<longleftrightarrow> ull x < ull b \<or> ull x = ull b" by (rule order.order_iff_strict)
  then show "op_le x b = (ull x \<le> ull b)"
    unfolding op_le_def ull_less_iff [OF assms] ull_eq_iff [OF assms]
    by (metis order.order_iff_strict)
  have "ull x \<ge> ull b \<longleftrightarrow> ull b < ull x \<or> ull b = ull x" by (rule order.order_iff_strict)
  then show "op_ge x b = (ull x \<ge> ull b)"
    unfolding op_ge_def ull_less_iff [OF assms] ull_eq_iff [OF assms]
    by (metis order.order_iff_strict)
qed

lemma less_exp_drop_bit_zero:
  fixes a :: "64 word"
  shows "a < 2 ^ 40 \<Longrightarrow> drop_bit 40 a = 0" and "a < 2 ^ 48 \<Longrightarrow> drop_bit 48 a = 0"
proof -
  have z: "unat (drop_bit k a) = 0 \<Longrightarrow> drop_bit k a = 0" for k
    by (simp add: unat_eq_0)
  show "a < 2 ^ 40 \<Longrightarrow> drop_bit 40 a = 0"
    by (rule z) (simp add: word_less_nat_alt unat_drop_bit_eq drop_bit_eq_div unat_div)
  show "a < 2 ^ 48 \<Longrightarrow> drop_bit 48 a = 0"
    by (rule z) (simp add: word_less_nat_alt unat_drop_bit_eq drop_bit_eq_div unat_div)
qed

lemma ull_min: "ull (UIntPair_min :: 'h::len word UIntPair) = 0"
  by (simp add: ull_alt UIntPair_min_def)

lemma ull_max:
  assumes "LENGTH('h::len) \<le> 32"
  shows "ull (UIntPair_max :: 'h word UIntPair) = mask (32 + LENGTH('h))"
  unfolding ull_def UIntPair_max_def low_bits_def
  using assms by (intro bit_word_eqI) (auto simp add: bit_simps)

lemma of_ull_min: "UIntPair_of_ull 0 = Some (UIntPair_min :: 'h::len word UIntPair)"
  by (simp add: UIntPair_of_ull_def UIntPair_min_def)

lemma of_ull_max:
  assumes "LENGTH('h::len) \<le> 32"
  shows "UIntPair_of_ull (mask (32 + LENGTH('h))) = Some (UIntPair_max :: 'h word UIntPair)"
proof -
  have 1: "drop_bit (32 + LENGTH('h)) (mask (32 + LENGTH('h)) :: 64 word) = 0"
    by (rule bit_word_eqI) (auto simp add: bit_simps)
  have 2: "(ucast ((mask (32 + LENGTH('h)) :: 64 word) AND ucast (mask 32 :: 32 word)) :: 32 word) = mask 32"
    by (rule bit_word_eqI) (auto simp add: bit_simps)
  have 3: "(ucast (drop_bit 32 (mask (32 + LENGTH('h)) :: 64 word) AND ucast (mask LENGTH('h) :: 32 word)) :: 'h word)
           = mask LENGTH('h)"
    using assms by (intro bit_word_eqI) (auto simp add: bit_simps)
  show ?thesis
    by (simp add: UIntPair_of_ull_def UIntPair_max_def low_bits_def high_bits_def low_max_def
        high_max_def 1 2 3)
qed

text \<open>
  Claim C6.  Every 64-bit value below \<open>2 ^ 40\<close> (below \<open>2 ^ 48\<close>) passes the
  assertion of the constructor of \<^verbatim>\<open>uint40_t\<close> (\<^verbatim>\<open>uint48_t\<close>), and \<^verbatim>\<open>ull()\<close> and
  \<^verbatim>\<open>u64()\<close> of the constructed pair give the value back.  The smallest value 0
  is \<^verbatim>\<open>min()\<close> and the largest packed value is \<^verbatim>\<open>max()\<close>.
\<close>
theorem UIntPair_roundtrip:
  "(a < 2 ^ 40 \<longrightarrow> (\<exists>p :: uint40_t. UIntPair_of_ull a = Some p \<and> ull p = a \<and> u64 p = a))
   \<and> (b < 2 ^ 48 \<longrightarrow> (\<exists>p :: uint48_t. UIntPair_of_ull b = Some p \<and> ull p = b \<and> u64 p = b))
   \<and> UIntPair_of_ull 0 = Some (UIntPair_min :: uint40_t)
   \<and> ull (UIntPair_min :: uint40_t) = 0
   \<and> UIntPair_of_ull (2 ^ 40 - 1) = Some (UIntPair_max :: uint40_t)
   \<and> ull (UIntPair_max :: uint40_t) = 2 ^ 40 - 1
   \<and> UIntPair_of_ull 0 = Some (UIntPair_min :: uint48_t)
   \<and> ull (UIntPair_min :: uint48_t) = 0
   \<and> UIntPair_of_ull (2 ^ 48 - 1) = Some (UIntPair_max :: uint48_t)
   \<and> ull (UIntPair_max :: uint48_t) = 2 ^ 48 - 1"
proof -
  have a: "a < 2 ^ 40 \<Longrightarrow> \<exists>p :: uint40_t. UIntPair_of_ull a = Some p \<and> ull p = a \<and> u64 p = a"
    using ull_of_ull [where 'h = 8, of a] less_exp_drop_bit_zero(1) [of a] by simp
  have b: "b < 2 ^ 48 \<Longrightarrow> \<exists>p :: uint48_t. UIntPair_of_ull b = Some p \<and> ull p = b \<and> u64 p = b"
    using ull_of_ull [where 'h = 16, of b] less_exp_drop_bit_zero(2) [of b] by simp
  have m40: "(mask 40 :: 64 word) = 2 ^ 40 - 1" and m48: "(mask 48 :: 64 word) = 2 ^ 48 - 1"
    by (simp_all add: mask_eq_exp_minus_1)
  have c: "UIntPair_of_ull (2 ^ 40 - 1) = Some (UIntPair_max :: uint40_t)"
    using of_ull_max [where 'h = 8] by (simp add: m40)
  have d: "ull (UIntPair_max :: uint40_t) = 2 ^ 40 - 1"
    using ull_max [where 'h = 8] by (simp add: m40)
  have e: "UIntPair_of_ull (2 ^ 48 - 1) = Some (UIntPair_max :: uint48_t)"
    using of_ull_max [where 'h = 16] by (simp add: m48)
  have f: "ull (UIntPair_max :: uint48_t) = 2 ^ 48 - 1"
    using ull_max [where 'h = 16] by (simp add: m48)
  show ?thesis
    using a b c d e f of_ull_min [where 'h = 8] of_ull_min [where 'h = 16]
      ull_min [where 'h = 8] ull_min [where 'h = 16] by blast
qed

text \<open>Witness for C6: the largest 40-bit value, and 5 as a 48-bit value.\<close>
theorem UIntPair_roundtrip_witness:
  "(1099511627775 :: 64 word) < 2 ^ 40 \<and> (5 :: 64 word) < 2 ^ 48
   \<and> (\<exists>p :: uint40_t. UIntPair_of_ull 1099511627775 = Some p \<and> ull p = 1099511627775)
   \<and> (\<exists>p :: uint48_t. UIntPair_of_ull 5 = Some p \<and> ull p = 5)"
  using UIntPair_roundtrip [of 1099511627775 5] by auto


text \<open>
  Claim C7, counterexample.  The claim says that a sum or difference outside
  the packed width is treated as a contract violation and not wrapped.
  \<^verbatim>\<open>max() + 1\<close> of \<^verbatim>\<open>uint40_t\<close> has the mathematical sum \<open>2 ^ 40\<close>, which the
  asserting constructor refuses, and \<^verbatim>\<open>operator+\<close> returns 0; \<^verbatim>\<open>min() - 1\<close>
  returns \<^verbatim>\<open>max()\<close>.
\<close>
theorem packed_add_sub_wraps_silently:
  "op_plus (UIntPair_max :: uint40_t) \<lparr> low = 1, high = 0 \<rparr> = \<lparr> low = 0, high = 0 \<rparr>
   \<and> ull (UIntPair_max :: uint40_t) + ull (\<lparr> low = 1, high = 0 \<rparr> :: uint40_t) = 1099511627776
   \<and> UIntPair_of_ull 1099511627776 = (None :: uint40_t option)
   \<and> op_minus (UIntPair_min :: uint40_t) \<lparr> low = 1, high = 0 \<rparr> = UIntPair_max
   \<and> ull (UIntPair_min :: uint40_t) < ull (\<lparr> low = 1, high = 0 \<rparr> :: uint40_t)"
  by code_simp

text \<open>
  Claim C7, amended.  \<^verbatim>\<open>operator+\<close> and \<^verbatim>\<open>operator-\<close> check nothing: the
  widened result is the 64-bit sum or difference of the widened operands cut
  to the packed width, that is, taken modulo \<open>2 ^ 40\<close> or \<open>2 ^ 48\<close>.
\<close>
theorem packed_add_sub_modulo:
  "ull (op_plus (x :: uint40_t) y) = take_bit 40 (ull x + ull y)
   \<and> ull (op_minus (x :: uint40_t) y) = take_bit 40 (ull x - ull y)
   \<and> ull (op_plus (u :: uint48_t) v) = take_bit 48 (ull u + ull v)
   \<and> ull (op_minus (u :: uint48_t) v) = take_bit 48 (ull u - ull v)"
  using ull_op_plus [where 'h = 8, of x y] ull_op_minus [where 'h = 8, of x y]
    ull_op_plus [where 'h = 16, of u v] ull_op_minus [where 'h = 16, of u v]
  by simp

text \<open>
  Claim C8.  For \<^verbatim>\<open>uint40_t\<close> and \<^verbatim>\<open>uint48_t\<close>, \<^verbatim>\<open>++x\<close> and \<^verbatim>\<open>--x\<close> widen to
  the widened \<open>x\<close> plus or minus one, cut to the packed width, and each of the
  six comparison operators returns the comparison of the widened values.
\<close>
theorem partwise_refines_widening:
  "ull (op_preinc (x :: uint40_t)) = take_bit 40 (ull x + 1)
   \<and> ull (op_predec x) = take_bit 40 (ull x - 1)
   \<and> op_eq x y = (ull x = ull y) \<and> op_ne x y = (ull x \<noteq> ull y)
   \<and> op_lt x y = (ull x < ull y) \<and> op_le x y = (ull x \<le> ull y)
   \<and> op_gt x y = (ull x > ull y) \<and> op_ge x y = (ull x \<ge> ull y)
   \<and> ull (op_preinc (u :: uint48_t)) = take_bit 48 (ull u + 1)
   \<and> ull (op_predec u) = take_bit 48 (ull u - 1)
   \<and> op_eq u v = (ull u = ull v) \<and> op_ne u v = (ull u \<noteq> ull v)
   \<and> op_lt u v = (ull u < ull v) \<and> op_le u v = (ull u \<le> ull v)
   \<and> op_gt u v = (ull u > ull v) \<and> op_ge u v = (ull u \<ge> ull v)"
proof -
  have 8: "LENGTH(8) \<le> 32" and 16: "LENGTH(16) \<le> 32" by simp_all
  show ?thesis
    using ull_op_preinc [OF 8, of x] ull_op_predec [OF 8, of x]
      ull_op_preinc [OF 16, of u] ull_op_predec [OF 16, of u]
    by (simp add: compare_refines [OF 8] compare_refines [OF 16])
qed

text \<open>Witness for C8, at \<^verbatim>\<open>min()\<close> and \<^verbatim>\<open>max()\<close>.\<close>
theorem partwise_refines_widening_witness:
  "ull (op_preinc (UIntPair_max :: uint40_t)) = 0
   \<and> ull (op_predec (UIntPair_min :: uint48_t)) = 2 ^ 48 - 1
   \<and> op_ne (UIntPair_min :: uint40_t) UIntPair_max
   \<and> op_lt (UIntPair_min :: uint48_t) UIntPair_max"
proof -
  have a: "ull (UIntPair_max :: uint40_t) = 2 ^ 40 - 1" and b: "ull (UIntPair_min :: uint40_t) = 0"
    and c: "ull (UIntPair_max :: uint48_t) = 2 ^ 48 - 1" and d: "ull (UIntPair_min :: uint48_t) = 0"
    by (code_simp, code_simp, code_simp, code_simp)
  show ?thesis
    using partwise_refines_widening [of UIntPair_max UIntPair_min UIntPair_min UIntPair_max]
      partwise_refines_widening [of UIntPair_min UIntPair_max UIntPair_min UIntPair_max]
    by (simp add: a b c d mask_eq_exp_minus_1)
qed


text \<open>
  Claim C9, evaluated where it fails.  For the index types \<^verbatim>\<open>uint8_t\<close> and
  \<^verbatim>\<open>uint16_t\<close>, which the \<^verbatim>\<open>static_assert\<close> of \<^verbatim>\<open>remove_flag\<close> accepts, tagging 1
  and untagging the result does not return 1: the flag is still set.
\<close>
theorem remove_flag_promoted_keeps_flag:
  "remove_flag (add_flag (1 :: 8 word)) = 129
   \<and> is_flagged (remove_flag (add_flag (1 :: 8 word)))
   \<and> remove_flag (add_flag (1 :: 16 word)) = 32769
   \<and> is_flagged (remove_flag (add_flag (1 :: 16 word)))"
  by code_simp

lemma top_bit_clear_less:
  fixes w :: "'a::len word"
  assumes "\<not> bit w (LENGTH('a) - Suc 0)" "bit w n"
  shows "n < LENGTH('a) - Suc 0"
proof -
  have "n < LENGTH('a)" using assms(2) by (rule bit_imp_le_length)
  moreover have "n \<noteq> LENGTH('a) - Suc 0" using assms by auto
  ultimately show ?thesis by simp
qed

lemma bit_drop1_push1:
  fixes w :: "'a::len word"
  shows "bit (drop_bit 1 (push_bit 1 w)) n \<longleftrightarrow> Suc n < LENGTH('a) \<and> bit w n"
proof -
  have "bit (drop_bit k (push_bit k w)) n \<longleftrightarrow> k + n < LENGTH('a) \<and> bit w n" for k
    by (auto simp add: bit_simps)
  from this [of 1] show ?thesis by simp
qed

text \<open>What holds of the flag functions: below 32 bits \<^verbatim>\<open>remove_flag\<close> changes nothing; from
  32 bits on, and for \<^verbatim>\<open>UIntPair\<close>, the round trip of the claim holds.\<close>

lemma remove_flag_narrow:
  fixes t :: "'a::len word"
  assumes "LENGTH('a) < 32"
  shows "remove_flag t = t"
proof -
  have "(ucast (drop_bit 1 (push_bit 1 (ucast t :: 32 word))) :: 'a word) = t"
    using assms
    by (intro bit_word_eqI) (auto simp only: bit_ucast_iff bit_drop1_push1 dest: bit_imp_le_length, simp_all)
  with assms show ?thesis by (simp only: remove_flag_def if_True)
qed

lemma remove_flag_wide:
  fixes t :: "'a::len word"
  assumes "32 \<le> LENGTH('a)"
  shows "remove_flag t = take_bit (LENGTH('a) - 1) t"
proof -
  have "drop_bit 1 (push_bit 1 t) = take_bit (LENGTH('a) - 1) t"
    by (rule bit_word_eqI) (simp only: bit_drop1_push1 bit_take_bit_iff, auto)
  with assms show ?thesis by (simp only: remove_flag_def, simp)
qed

lemma is_flagged_iff: "is_flagged (t :: 'a::len word) \<longleftrightarrow> bit t (LENGTH('a) - 1)"
  by (simp add: is_flagged_def bit_last_iff)

lemma flag_roundtrip_wide:
  fixes t :: "'a::len word"
  assumes "32 \<le> LENGTH('a)"
  shows "remove_flag (add_flag t) = remove_flag t"
    and "is_flagged (add_flag t)"
    and "\<not> is_flagged (remove_flag t)"
    and "\<not> is_flagged t \<Longrightarrow> remove_flag t = t"
proof -
  show "remove_flag (add_flag t) = remove_flag t"
    unfolding remove_flag_wide [OF assms] add_flag_def
    by (rule bit_word_eqI) (auto simp add: bit_simps)
  show "is_flagged (add_flag t)"
    by (simp add: is_flagged_iff add_flag_def bit_simps)
  show "\<not> is_flagged (remove_flag t)"
    by (simp add: is_flagged_iff remove_flag_wide [OF assms] bit_simps)
  show "\<not> is_flagged t \<Longrightarrow> remove_flag t = t"
    unfolding is_flagged_iff remove_flag_wide [OF assms]
    by (rule bit_word_eqI) (auto simp add: bit_simps top_bit_clear_less)
qed

lemma flag_roundtrip_pair:
  fixes t :: "'h::len word UIntPair"
  shows "remove_flag_pair (add_flag_pair t) = remove_flag_pair t"
    and "is_flagged_pair (add_flag_pair t)"
    and "\<not> is_flagged_pair (remove_flag_pair t)"
    and "\<not> is_flagged_pair t \<Longrightarrow> remove_flag_pair t = t"
proof -
  have rf: "drop_bit 1 (push_bit 1 h) = take_bit (LENGTH('h) - 1) h" for h :: "'h word"
    by (rule bit_word_eqI) (simp only: bit_drop1_push1 bit_take_bit_iff, auto)
  have tb: "take_bit (LENGTH('h) - 1) (h OR push_bit (LENGTH('h) - 1) 1) = take_bit (LENGTH('h) - 1) h"
    for h :: "'h word"
    by (rule bit_word_eqI) (auto simp add: bit_simps)
  show "remove_flag_pair (add_flag_pair t) = remove_flag_pair t"
    using tb [of "high t"] unfolding remove_flag_pair_def add_flag_pair_def rf
    by simp
  show "is_flagged_pair (add_flag_pair t)"
    by (simp add: is_flagged_pair_def add_flag_pair_def bit_last_iff [symmetric] bit_simps)
  show "\<not> is_flagged_pair (remove_flag_pair t)"
    by (simp add: is_flagged_pair_def remove_flag_pair_def rf bit_last_iff [symmetric] bit_simps)
  show "remove_flag_pair t = t" if "\<not> is_flagged_pair t"
  proof -
    from that have "\<not> bit (high t) (LENGTH('h) - Suc 0)"
      by (simp add: is_flagged_pair_def bit_last_iff)
    then have "take_bit (LENGTH('h) - 1) (high t) = high t"
      by (intro bit_word_eqI) (auto simp add: bit_simps top_bit_clear_less)
    then show ?thesis unfolding remove_flag_pair_def rf by simp
  qed
qed

text \<open>
  Claim C10.  For every boolean \<open>b\<close> and every index value \<open>t\<close>, tagged or
  not, of every width, and for every \<^verbatim>\<open>UIntPair\<close>, \<^verbatim>\<open>conditional_add_flag(b, t)\<close>
  is \<^verbatim>\<open>add_flag(t)\<close> when \<open>b\<close> holds and \<open>t\<close> otherwise.
\<close>
theorem conditional_add_flag_cases:
  "conditional_add_flag b (t :: 'a::len word) = (if b then add_flag t else t)
   \<and> conditional_add_flag_pair b (p :: 'h::len word UIntPair) = (if b then add_flag_pair p else p)"
  by (simp add: conditional_add_flag_def add_flag_def conditional_add_flag_pair_def add_flag_pair_def)

text \<open>
  Claim C4.  For a text view of adjusted length \<open>n\<close> over \<open>n - 2\<close> stored
  symbols, the view returns 0 at the index 0 and at the index \<open>n - 1\<close>, and
  at every index \<open>i\<close> with \<open>0 < i < n - 1\<close> it returns the stored symbol at
  position \<open>i - 1\<close>, which exists, plus 1.
\<close>
theorem text_view:
  fixes t :: "8 word text_type"
  assumes "unat (text_n t) = length (text_buf t) + 2"
  shows "(i = 0 \<or> i = text_n t - 1 \<longrightarrow> text_at t i = 0)
         \<and> (0 < i \<and> i < text_n t - 1 \<longrightarrow>
              unat (i - 1) < length (text_buf t)
              \<and> text_at t i = ucast (text_buf t ! unat (i - 1)) + 1
              \<and> unat (text_at t i) = unat (text_buf t ! unat (i - 1)) + 1)"
proof -
  have "unat (i - 1) < length (text_buf t)" if "0 < i" "i < text_n t - 1"
  proof -
    have "unat i < unat (text_n t - 1)" using that(2) by (simp add: word_less_nat_alt)
    moreover have "unat (text_n t - 1) = length (text_buf t) + 1"
      using assms by (simp add: unat_sub_if_size word_size)
    moreover have "unat (i - 1) = unat i - 1"
      using that(1) by (simp add: unat_sub_if_size word_size word_less_nat_alt)
    moreover have "0 < unat i" using that(1) by (simp add: word_less_nat_alt)
    ultimately show ?thesis by simp
  qed
  moreover have "unat (ucast c + 1 :: 128 word) = unat c + 1" for c :: "8 word"
  proof -
    have "unat c < 2 ^ 8" using unsigned_less [of c] by simp
    then show ?thesis
      by (simp add: unat_word_ariths unsigned_ucast_eq take_bit_eq_mod)
  qed
  ultimately show ?thesis
    by (auto simp add: text_at_def)
qed

text \<open>Witness for C4: the view of the text \<open>ab\<close>.\<close>
theorem text_view_witness:
  "unat (text_n \<lparr> text_n = 4, text_buf = [97, 98 :: 8 word] \<rparr>)
     = length (text_buf \<lparr> text_n = 4, text_buf = [97, 98 :: 8 word] \<rparr>) + 2
   \<and> text_at \<lparr> text_n = 4, text_buf = [97, 98 :: 8 word] \<rparr> 0 = 0
   \<and> text_at \<lparr> text_n = 4, text_buf = [97, 98 :: 8 word] \<rparr> 3 = 0
   \<and> text_at \<lparr> text_n = 4, text_buf = [97, 98 :: 8 word] \<rparr> 2 = 99"
proof -
  have wf: "unat (text_n \<lparr> text_n = 4, text_buf = [97, 98 :: 8 word] \<rparr>)
     = length (text_buf \<lparr> text_n = 4, text_buf = [97, 98 :: 8 word] \<rparr>) + 2"
    by simp
  show ?thesis
    using wf text_view [OF wf, of 0] text_view [OF wf, of 3] text_view [OF wf, of 2]
    by simp
qed

section \<open>Phase 0 and the entry point, verified\<close>

subsection \<open>Counted iteration\<close>

lemma for_loop_empty: "hi \<le> lo \<Longrightarrow> for_loop lo hi body s = Some s"
  by (simp add: for_loop_def)

lemma for_loop_Suc:
  "lo \<le> hi \<Longrightarrow> for_loop lo (Suc hi) body s = Option.bind (for_loop lo hi body s) (body hi)"
  by (simp add: for_loop_def)

lemma for_loop_invariant:
  assumes "lo \<le> hi" "P lo s"
    and "\<And>i x. lo \<le> i \<Longrightarrow> i < hi \<Longrightarrow> P i x \<Longrightarrow> \<exists>y. body i x = Some y \<and> P (Suc i) y"
  shows "\<exists>y. for_loop lo hi body s = Some y \<and> P hi y"
  using assms(1,3)
proof (induction hi)
  case 0
  then show ?case using assms(2) by (simp add: for_loop_empty)
next
  case (Suc hi)
  show ?case
  proof (cases "lo = Suc hi")
    case True
    then show ?thesis using assms(2) by (simp add: for_loop_empty)
  next
    case False
    then have le: "lo \<le> hi" using Suc.prems(1) by simp
    obtain x where x: "for_loop lo hi body s = Some x" "P hi x"
      using Suc.IH [OF le] Suc.prems(2) by fastforce
    obtain y where "body hi x = Some y" "P (Suc hi) y"
      using Suc.prems(2) [OF le _ x(2)] by auto
    then show ?thesis by (simp add: for_loop_Suc [OF le] x(1))
  qed
qed

subsection \<open>Indices\<close>

lemma unat_of_nat32: "i < 2 ^ 32 \<Longrightarrow> unat (of_nat i :: 32 word) = i"
  by (simp add: unat_of_nat)

lemma unat_of_nat64: "i < 2 ^ 32 \<Longrightarrow> unat (of_nat i :: 64 word) = i"
  by (simp add: unat_of_nat)

lemma ucast_of_nat_32_64: "i < 2 ^ 32 \<Longrightarrow> (ucast (of_nat i :: 32 word) :: 64 word) = of_nat i"
  by (simp add: word_unat_eq_iff unsigned_ucast_eq unat_of_nat take_bit_nat_eq_self)

lemma one_less_of_nat64: "i < 2 ^ 32 \<Longrightarrow> (1 :: 64 word) < of_nat i \<longleftrightarrow> 1 < i"
  by (simp add: word_less_nat_alt unat_of_nat)

lemma unat_of_nat64_minus2: "i < 2 ^ 32 \<Longrightarrow> 2 \<le> i \<Longrightarrow> unat ((of_nat i :: 64 word) - 2) = i - 2"
  by (simp add: unat_sub_if_size word_size unat_of_nat)

subsection \<open>The logical array\<close>

lemma sa_get_logical:
  assumes "length (sa01 s) = 2" "i < 2 ^ 32"
  shows "sa_get s (of_nat i) = (if i < length (logical s) then Some (logical s ! i) else None)"
proof (cases "1 < i")
  case True
  then show ?thesis
    using assms
    by (auto simp add: sa_get_def logical_def one_less_of_nat64 unat_of_nat64_minus2 nth_append)
next
  case False
  then show ?thesis
    using assms
    by (auto simp add: sa_get_def logical_def one_less_of_nat64 unat_of_nat64 nth_append)
qed

lemma sa_set_logical:
  assumes "length (sa01 s) = 2" "i < 2 ^ 32" "i < length (logical s)"
  shows "\<exists>s'. sa_set s (of_nat i) v = Some s' \<and> logical s' = (logical s)[i := v]
           \<and> length (sa01 s') = 2 \<and> length (sa s') = length (sa s) \<and> sa_n s' = sa_n s"
proof (cases "1 < i")
  case True
  then show ?thesis
    using assms
    by (auto simp add: sa_set_def logical_def one_less_of_nat64 unat_of_nat64_minus2 list_update_append)
next
  case False
  then show ?thesis
    using assms
    by (auto simp add: sa_set_def logical_def one_less_of_nat64 unat_of_nat64 list_update_append)
qed

lemma sa_set_0: "sa_set s 0 v = Some (s\<lparr> sa01 := (sa01 s)[0 := v] \<rparr>)"
  by (simp add: sa_set_def)

lemma sa_set_1: "sa_set s 1 v = Some (s\<lparr> sa01 := (sa01 s)[1 := v] \<rparr>)"
  by (simp add: sa_set_def)

lemma fill_step_index: "Suc i < 2 ^ 32 \<Longrightarrow> (ucast ((of_nat i :: 32 word) + 1) :: 64 word) = of_nat (Suc i)"
  using ucast_of_nat_32_64 [of "Suc i"] by (simp add: add.commute)

lemma fill_loop:
  assumes "filled n 1 hv s" "2 \<le> n" "n < 2 ^ 32"
  shows "\<exists>s'. for_loop 1 (n - 1) fill_step s = Some s' \<and> filled n (n - 1) hv s'"
proof (rule for_loop_invariant [where P = "\<lambda>i. filled n i hv"])
  show "1 \<le> n - 1" using assms(2) by simp
  show "filled n 1 hv s" by (rule assms(1))
next
  fix i x
  assume i: "1 \<le> i" "i < n - 1" and x: "filled n i hv x"
  have len: "length (sa01 x) = 2" "length (logical x) = n" using x by (simp_all add: filled_def)
  have si: "Suc i < 2 ^ 32" "Suc i < length (logical x)" using i assms(3) len by simp_all
  obtain y where y: "sa_set x (of_nat (Suc i)) (of_nat i) = Some y"
    "logical y = (logical x)[Suc i := of_nat i]" "length (sa01 y) = 2" "sa_n y = sa_n x"
    using sa_set_logical [OF len(1) si] by blast
  have "filled n (Suc i) hv y"
    using x i len unfolding filled_def y(2)
    by (auto simp add: nth_list_update less_Suc_eq y(3,4))
  then show "\<exists>y. fill_step i x = Some y \<and> filled n (Suc i) hv y"
    using y(1) si(1) by (simp add: fill_step_def fill_step_index)
qed

lemma filled_logical:
  assumes "filled n (n - 1) hv s" "2 \<le> n"
  shows "logical s = [0, hv] @ map of_nat [1..<n - 1]"
proof (rule nth_equalityI)
  show "length (logical s) = length ([0, hv] @ map of_nat [1..<n - 1])"
    using assms by (simp add: filled_def)
next
  fix i assume "i < length (logical s)"
  then have i: "i < n" using assms by (simp add: filled_def)
  consider "i = 0" | "i = 1" | k where "i = Suc k" "1 \<le> k" "k < n - 1"
  proof (cases i)
    case 0 then show ?thesis using that by simp
  next
    case (Suc k)
    then show ?thesis using that i by (cases k) auto
  qed
  then show "logical s ! i = ([0, hv] @ map of_nat [1..<n - 1]) ! i"
  proof cases
    case 1 then show ?thesis using assms by (simp add: filled_def)
  next
    case 2 then show ?thesis using assms by (simp add: filled_def)
  next
    case 3
    then have "logical s ! i = of_nat k" using assms by (simp add: filled_def)
    moreover have "([0, hv] @ map of_nat [1..<n - 1]) ! i = (of_nat k :: 32 word)"
      using 3 by (simp add: nth_append nth_Cons' )
    ultimately show ?thesis by simp
  qed
qed

subsection \<open>Sorting by a predicate that is the order of a key\<close>

lemma insert_by_insort_key:
  fixes key :: "'a \<Rightarrow> 'k::linorder"
  assumes "\<And>a b. lt a b \<longleftrightarrow> key a < key b"
  shows "insert_by lt x ys = insort_key key x ys"
  by (induction ys) (auto simp add: assms not_less)

lemma ips4o_sort_sort_key:
  fixes key :: "'a \<Rightarrow> 'k::linorder"
  assumes "\<And>a b. lt a b \<longleftrightarrow> key a < key b"
  shows "ips4o_sort lt xs = sort_key key xs"
proof -
  have "insert_by lt = insort_key key"
    by (intro ext) (rule insert_by_insort_key [OF assms])
  then show ?thesis by (simp add: ips4o_sort_def sort_key_def)
qed

lemma comp_comp_key: "comp t a b \<longleftrightarrow> comp_key t a < comp_key t b"
  by (auto simp add: comp_def comp_key_def Let_def less_prod_def)

subsection \<open>The groups of phase 0\<close>

lemma run_startD:
  assumes "run_start V j k"
  shows "2 \<le> j" "j \<le> k" "\<And>m. j \<le> m \<Longrightarrow> m \<le> k \<Longrightarrow> V m = V k"
    "j = 2 \<or> V (j - 1) \<noteq> V j"
  using assms unfolding run_start_def by blast+

lemma gsize_step_inv:
  assumes len: "length (sa01 s) = 2" "length (logical s) = n" "n < 2 ^ 32"
    and i: "2 \<le> i" "i < n - 1"
    and inv: "gsize_inv (view_at t s) i st"
  shows "\<exists>st'. gsize_step t s i st = Some st' \<and> gsize_inv (view_at t s) (Suc i) st'"
proof -
  obtain result lb gs where st: "st = (result, lb, gs)" by (cases st) auto
  have i32: "i < 2 ^ 32" "Suc i < 2 ^ 32" using i len(3) by simp_all
  have ga: "sa_get s (ucast (of_nat i :: 32 word)) = Some (logical s ! i)"
    using sa_get_logical [OF len(1) i32(1)] i len(2) by (simp add: ucast_of_nat_32_64 [OF i32(1)])
  have gb: "sa_get s (ucast ((of_nat i :: 32 word) + 1)) = Some (logical s ! Suc i)"
    using sa_get_logical [OF len(1) i32(2)] i len(2) by (simp add: fill_step_index [OF i32(2)])
  have I: "unat lb + unat gs = Suc i" "2 \<le> unat lb" "1 \<le> unat gs"
    "groups_cover (view_at t s) result (unat lb)"
    using inv unfolding gsize_inv_def st by simp_all
  have I5: "run_start (view_at t s) (unat lb) k" if "unat lb \<le> k" "k \<le> i" for k
    using inv that unfolding gsize_inv_def st by blast
  show ?thesis
  proof (cases "view_at t s i = view_at t s (Suc i)")
    case True
    have "Suc (unat gs) < 2 ^ 32" using I(1,2) i32(2) by linarith
    then have gs1: "unat (gs + 1) = Suc (unat gs)"
      by (simp add: unat_word_ariths)
    have rs': "run_start (view_at t s) (unat lb) k" if "unat lb \<le> k \<and> k \<le> Suc i" for k
    proof (cases "k \<le> i")
      case True then show ?thesis using I5 that by simp
    next
      case False
      then have k: "k = Suc i" using that by simp
      have lbi: "unat lb \<le> i" using I(1,3) by simp
      have rs: "run_start (view_at t s) (unat lb) i" using I5 [OF lbi] by simp
      have "view_at t s m = view_at t s (Suc i)" if "unat lb \<le> m" "m \<le> Suc i" for m
      proof (cases "m \<le> i")
        case True
        then have "view_at t s m = view_at t s i" using run_startD(3) [OF rs that(1)] by simp
        then show ?thesis using \<open>view_at t s i = view_at t s (Suc i)\<close> by simp
      next
        case False
        then have "m = Suc i" using that(2) by simp
        then show ?thesis by simp
      qed
      moreover have "2 \<le> unat lb" "unat lb \<le> Suc i"
        "unat lb = 2 \<or> view_at t s (unat lb - 1) \<noteq> view_at t s (unat lb)"
        using run_startD(1,2,4) [OF rs] by simp_all
      ultimately show ?thesis unfolding run_start_def k by blast
    qed
    have "unat lb + unat (gs + 1) = Suc (Suc i)" "1 \<le> unat (gs + 1)"
      using I(1) gs1 by simp_all
    then have "gsize_inv (view_at t s) (Suc i) (result, lb, gs + 1)"
      unfolding gsize_inv_def using I(2,4) rs' by simp
    moreover have "gsize_step t s i st = Some (result, lb, gs + 1)"
      using True by (simp add: gsize_step_def st ga gb view_at_def)
    ultimately show ?thesis by blast
  next
    case False
    let ?g = "\<lparr> group_left = lb, group_size = gs, group_depth = 1,
                group_sorted = True, group_final = False \<rparr>"
    have lb': "unat ((of_nat i :: 32 word) + 1) = Suc i"
      using unat_of_nat32 [OF i32(2)] by (simp add: add.commute)
    have rng: "group_range ?g = [unat lb..<Suc i]"
      using I(1) by (simp add: group_range_def)
    have mem: "run_start (view_at t s) (unat (group_left g)) k"
      if "g \<in> set (result @ [?g])" "k \<in> set (group_range g)" for g k
    proof (cases "g \<in> set result")
      case True
      then show ?thesis using I(4) that(2) by (simp add: groups_cover_def)
    next
      case False
      then have g: "g = ?g" using that(1) by simp
      have "unat lb \<le> k" "k \<le> i" using that(2) unfolding g rng by auto
      then show ?thesis unfolding g using I5 by simp
    qed
    have cover: "groups_cover (view_at t s) (result @ [?g]) (Suc i)"
    proof -
      have "concat (map group_range (result @ [?g])) = [2..<unat lb] @ [unat lb..<Suc i]"
        using I(4) by (simp add: groups_cover_def rng)
      also have "\<dots> = [2..<Suc i]"
        using upt_add_eq_append [OF I(2), of "unat gs"] I(1) by simp
      finally show ?thesis
        using mem unfolding groups_cover_def by blast
    qed
    have rs1: "run_start (view_at t s) (Suc i) (Suc i)"
      using False i by (auto simp add: run_start_def dest: le_antisym)
    have "\<forall>k. Suc i \<le> k \<and> k \<le> Suc i \<longrightarrow> run_start (view_at t s) (Suc i) k"
    proof (intro allI impI)
      fix k assume "Suc i \<le> k \<and> k \<le> Suc i"
      then have "k = Suc i" by simp
      then show "run_start (view_at t s) (Suc i) k" using rs1 by simp
    qed
    then have "gsize_inv (view_at t s) (Suc i) (result @ [?g], (of_nat i :: 32 word) + 1, 1)"
      unfolding gsize_inv_def using cover i lb' by simp
    moreover have "gsize_step t s i st = Some (result @ [?g], (of_nat i :: 32 word) + 1, 1)"
      using False by (simp add: gsize_step_def st ga gb view_at_def)
    ultimately show ?thesis by blast
  qed
qed

lemma gsize_loop:
  assumes len: "length (sa01 s) = 2" "length (logical s) = n" "n < 2 ^ 32" "3 \<le> n"
  shows "\<exists>result lb gs. for_loop 2 (n - 1) (gsize_step t s) ([], 2, 1) = Some (result, lb, gs)
           \<and> groups_cover (view_at t s)
                (result @ [\<lparr> group_left = lb, group_size = gs, group_depth = 1,
                              group_sorted = True, group_final = False \<rparr>]) n"
proof -
  have rs: "run_start (view_at t s) 2 2"
    by (auto simp add: run_start_def dest: le_antisym)
  have init: "gsize_inv (view_at t s) 2 ([], 2, 1)"
    unfolding gsize_inv_def groups_cover_def
  proof (simp, intro allI impI)
    fix k :: nat
    assume "2 \<le> k \<and> k \<le> 2"
    then have "k = 2" by simp
    then show "run_start (view_at t s) 2 k" using rs by simp
  qed
  have "\<exists>st. for_loop 2 (n - 1) (gsize_step t s) ([], 2, 1) = Some st
           \<and> gsize_inv (view_at t s) (n - 1) st"
  proof (rule for_loop_invariant [where P = "gsize_inv (view_at t s)"])
    show "2 \<le> n - 1" using len(4) by simp
    show "gsize_inv (view_at t s) 2 ([], 2, 1)" by (rule init)
  next
    fix i x
    assume "2 \<le> i" "i < n - 1" "gsize_inv (view_at t s) i x"
    then show "\<exists>y. gsize_step t s i x = Some y \<and> gsize_inv (view_at t s) (Suc i) y"
      by (rule gsize_step_inv [OF len(1,2,3)])
  qed
  then obtain st where st: "for_loop 2 (n - 1) (gsize_step t s) ([], 2, 1) = Some st"
    "gsize_inv (view_at t s) (n - 1) st" by blast
  obtain result lb gs where "st = (result, lb, gs)" by (cases st) auto
  with st have r:
    "for_loop 2 (n - 1) (gsize_step t s) ([], 2, 1) = Some (result, lb, gs)"
    "gsize_inv (view_at t s) (n - 1) (result, lb, gs)"
    by simp_all
  let ?g = "\<lparr> group_left = lb, group_size = gs, group_depth = 1,
              group_sorted = True, group_final = False \<rparr>"
  have I: "unat lb + unat gs = n" "2 \<le> unat lb" "1 \<le> unat gs"
    "groups_cover (view_at t s) result (unat lb)"
    using r(2) len(4) unfolding gsize_inv_def by simp_all
  have I5: "run_start (view_at t s) (unat lb) k" if "unat lb \<le> k" "k \<le> n - 1" for k
    using r(2) that unfolding gsize_inv_def by blast
  have rng: "group_range ?g = [unat lb..<n]"
    using I(1) by (simp add: group_range_def)
  have mem: "run_start (view_at t s) (unat (group_left g)) k"
    if "g \<in> set (result @ [?g])" "k \<in> set (group_range g)" for g k
  proof (cases "g \<in> set result")
    case True
    then show ?thesis using I(4) that(2) by (simp add: groups_cover_def)
  next
    case False
    then have g: "g = ?g" using that(1) by simp
    have "unat lb \<le> k" "k \<le> n - 1" using that(2) len(4) unfolding g rng by auto
    then show ?thesis unfolding g using I5 by simp
  qed
  have "concat (map group_range (result @ [?g])) = [2..<unat lb] @ [unat lb..<n]"
    using I(4) by (simp add: groups_cover_def rng)
  also have "\<dots> = [2..<n]"
    using upt_add_eq_append [OF I(2), of "unat gs"] I(1) by simp
  finally have "groups_cover (view_at t s) (result @ [?g]) n"
    using mem unfolding groups_cover_def by blast
  with r(1) show ?thesis by blast
qed

lemma flag_loop:
  assumes len: "length (sa01 s) = 2" "length (logical s) = n" "n < 2 ^ 32" "unat (sa_n s) = n"
  shows "\<exists>s'. for_loop 0 n (flag_step use_flags t) s = Some s'
           \<and> logical s' = map (flag_fn use_flags t) (logical s)
           \<and> length (sa01 s') = 2 \<and> unat (sa_n s') = n"
proof -
  have "\<exists>s'. for_loop 0 n (flag_step use_flags t) s = Some s'
          \<and> flagged_upto use_flags t (logical s) n s'"
  proof (rule for_loop_invariant [where P = "flagged_upto use_flags t (logical s)"])
    show "0 \<le> n" by simp
    show "flagged_upto use_flags t (logical s) 0 s"
      using len by (simp add: flagged_upto_def logical_def)
  next
    fix i x
    assume i: "0 \<le> i" "i < n" and x: "flagged_upto use_flags t (logical s) i x"
    have lx: "length (sa01 x) = 2" "length (logical x) = n"
      and eq: "logical x = map (flag_fn use_flags t) (take i (logical s)) @ drop i (logical s)"
      using x len by (simp_all add: flagged_upto_def logical_def)
    have i32: "i < 2 ^ 32" using i len(3) by simp
    have xi: "logical x ! i = logical s ! i"
      using i len(2) by (simp add: eq nth_append)
    have g: "sa_get x (of_nat i) = Some (logical s ! i)"
      using sa_get_logical [OF lx(1) i32] i lx(2) by (simp add: xi)
    obtain y where y: "sa_set x (of_nat i) (flag_fn use_flags t (logical s ! i)) = Some y"
      "logical y = (logical x)[i := flag_fn use_flags t (logical s ! i)]"
      "length (sa01 y) = 2" "length (sa y) = length (sa x)" "sa_n y = sa_n x"
      using sa_set_logical [OF lx(1) i32] i lx(2) by metis
    have "logical y = map (flag_fn use_flags t) (take (Suc i) (logical s)) @ drop (Suc i) (logical s)"
      using i len(2) unfolding y(2) eq
      by (simp add: take_Suc_conv_app_nth list_update_append Cons_nth_drop_Suc [symmetric])
    then have "flagged_upto use_flags t (logical s) (Suc i) y"
      using x y(3,4,5) by (simp add: flagged_upto_def)
    moreover have "flag_step use_flags t i x = Some y"
      using y(1) by (simp add: flag_step_def g ucast_of_nat_32_64 [OF i32] flag_fn_def)
    ultimately show "\<exists>y. flag_step use_flags t i x = Some y \<and> flagged_upto use_flags t (logical s) (Suc i) y"
      by blast
  qed
  then show ?thesis
    using len(2) by (auto simp add: flagged_upto_def)
qed

lemma flag_fn_no_flags: "flag_fn False t = (\<lambda>idx. idx)"
  by (auto simp add: flag_fn_def F_conditional_add_flag_def)

lemma length_bucket_order: "length (bucket_order t n) = n - 2"
  by (simp add: bucket_order_def ips4o_sort_sort_key [of "comp t" "comp_key t", OF comp_comp_key])

lemma phase0:
  assumes n: "unat (text_n t) = n" "3 \<le> n" "n < 2 ^ 32"
    and s0: "length (sa s0) = n - 2" "length (sa01 s0) = 2" "unat (sa_n s0) = n"
  shows "\<exists>G s1. sort_by_prefix_parallel use_flags t s0 = Some (G, s1)
           \<and> logical s1 = [of_nat (n - 1), 0] @ map (flag_fn use_flags t) (bucket_order t n)
           \<and> length (sa01 s1) = 2 \<and> unat (sa_n s1) = n
           \<and> groups_cover (\<lambda>k. text_at t (ucast (([0, of_nat (n - 1)] @ bucket_order t n) ! k))) G n"
proof -
  let ?n = "ucast (text_n t) :: 32 word"
  have n32: "?n = of_nat n"
    using n by (simp add: word_unat_eq_iff unsigned_ucast_eq unat_of_nat take_bit_nat_eq_self)
  have un: "unat ?n = n" "unat (?n - 1) = n - 1" "unat (?n - 2) = n - 2"
    using n by (simp_all add: n32 unat_of_nat unat_sub_if_size word_size)
  have n1: "?n - 1 = of_nat (n - 1)"
    using n(2) by (simp add: n32 of_nat_diff)
  \<comment> \<open>the two side slots and the fill\<close>
  let ?sa = "s0\<lparr> sa01 := (sa01 s0)[0 := 0] \<rparr>"
  let ?sb = "?sa\<lparr> sa01 := (sa01 ?sa)[1 := ?n - 1] \<rparr>"
  have "filled n 1 (?n - 1) ?sb"
    using s0 n(2) by (cases "sa01 s0"; cases "tl (sa01 s0)") (auto simp add: filled_def logical_def)
  then obtain sc where sc: "for_loop 1 (n - 1) fill_step ?sb = Some sc" "filled n (n - 1) (?n - 1) sc"
    using fill_loop [of n "?n - 1" ?sb] n by auto
  have Lc: "logical sc = [0, ?n - 1] @ map of_nat [1..<n - 1]"
    using filled_logical [OF sc(2)] n(2) by simp
  have lenc: "length (sa01 sc) = 2" "length (logical sc) = n" "unat (sa_n sc) = n"
    using sc(2) by (simp_all add: filled_def)
  have sac: "sa sc = map of_nat [1..<n - 1]" "sa01 sc = [0, ?n - 1]"
    using Lc lenc(1) append_eq_append_conv [of "sa01 sc" "[0, ?n - 1]" "sa sc" "map of_nat [1..<n - 1]"]
    by (simp_all add: logical_def)
  \<comment> \<open>the sort\<close>
  let ?sd = "sc\<lparr> sa := bucket_order t n \<rparr>"
  have sd: "sort_caller_range (comp t) sc (?n - 2) = Some ?sd"
    by (simp add: sort_caller_range_def un sac bucket_order_def)
  have Ld: "logical ?sd = [0, of_nat (n - 1)] @ bucket_order t n"
    by (simp add: logical_def sac n1)
  have lend: "length (sa01 ?sd) = 2" "length (logical ?sd) = n" "unat (sa_n ?sd) = n"
    using n(2) lenc(3) by (simp_all add: logical_def sac length_bucket_order)
  \<comment> \<open>the groups\<close>
  obtain result lb gs where g:
    "for_loop 2 (n - 1) (gsize_step t ?sd) ([], 2, 1) = Some (result, lb, gs)"
    "groups_cover (view_at t ?sd)
       (result @ [\<lparr> group_left = lb, group_size = gs, group_depth = 1,
                     group_sorted = True, group_final = False \<rparr>]) n"
    using gsize_loop [OF lend(1,2) n(3,2), of t] by blast
  \<comment> \<open>the flags\<close>
  obtain se where se: "for_loop 0 n (flag_step use_flags t) ?sd = Some se"
    "logical se = map (flag_fn use_flags t) (logical ?sd)" "length (sa01 se) = 2"
    "unat (sa_n se) = n"
    using flag_loop [OF lend(1,2) n(3) lend(3)] by blast
  have "sa01 se @ sa se = [flag_fn use_flags t 0, flag_fn use_flags t (of_nat (n - 1))]
          @ map (flag_fn use_flags t) (bucket_order t n)"
    using se(2) unfolding Ld by (simp add: logical_def)
  then have sae: "sa se = map (flag_fn use_flags t) (bucket_order t n)"
    using se(3) append_eq_append_conv [of "sa01 se"
        "[flag_fn use_flags t 0, flag_fn use_flags t (of_nat (n - 1))]" "sa se"
        "map (flag_fn use_flags t) (bucket_order t n)"]
    by simp
  let ?sf = "se\<lparr> sa01 := (sa01 se)[0 := ?n - 1] \<rparr>"
  let ?sg = "?sf\<lparr> sa01 := (sa01 ?sf)[1 := 0] \<rparr>"
  have Lg: "logical ?sg = [of_nat (n - 1), 0] @ map (flag_fn use_flags t) (bucket_order t n)"
    using se(3) by (cases "sa01 se"; cases "tl (sa01 se)") (auto simp add: logical_def sae n1)
  have "sort_by_prefix_parallel use_flags t s0 =
          Some (result @ [\<lparr> group_left = lb, group_size = gs, group_depth = 1,
                              group_sorted = True, group_final = False \<rparr>], ?sg)"
    using sc(1) sd g(1) se(1)
    by (simp add: sort_by_prefix_parallel_def Let_def sa_set_0 sa_set_1 un)
  moreover have "view_at t ?sd = (\<lambda>k. text_at t (ucast (([0, of_nat (n - 1)] @ bucket_order t n) ! k)))"
    by (rule ext) (simp only: view_at_def Ld)
  ultimately show ?thesis
    using Lg g(2) se(3,4) by simp
qed

lemma set_bucket_order: "set (bucket_order t n) = of_nat ` {1..<n - 1}"
  by (simp add: bucket_order_def ips4o_sort_sort_key [of "comp t" "comp_key t", OF comp_comp_key])

lemma distinct_bucket_order:
  assumes "n < 2 ^ 32"
  shows "distinct (bucket_order t n)"
proof -
  have "inj_on (of_nat :: nat \<Rightarrow> 32 word) {1..<n - 1}"
  proof (rule inj_onI)
    fix x y assume "x \<in> {1..<n - 1}" "y \<in> {1..<n - 1}" "(of_nat x :: 32 word) = of_nat y"
    then have "unat (of_nat x :: 32 word) = unat (of_nat y :: 32 word)" "x < 2 ^ 32" "y < 2 ^ 32"
      using assms by auto
    then show "x = y" by (simp add: unat_of_nat)
  qed
  then show ?thesis
    by (simp add: bucket_order_def ips4o_sort_sort_key [of "comp t" "comp_key t", OF comp_comp_key]
        distinct_map)
qed

lemma not_flagged_small:
  assumes "p < 2 ^ 31"
  shows "\<not> is_flagged (of_nat p :: 32 word)"
proof -
  have "\<not> bit p 31" using assms by (simp add: bit_iff_odd)
  then have "\<not> bit (of_nat p :: 32 word) 31" by (simp add: bit_of_nat_iff)
  then show ?thesis by (simp add: is_flagged_iff)
qed

lemma is_flagged_conditional:
  "is_flagged (conditional_add_flag b (x :: 32 word)) \<longleftrightarrow> b \<or> is_flagged x"
  by (cases b) (simp_all add: is_flagged_iff conditional_add_flag_def bit_simps)

lemma remove_flag_conditional:
  assumes "\<not> is_flagged (x :: 32 word)"
  shows "remove_flag (conditional_add_flag b x) = x"
proof -
  have "32 \<le> LENGTH(32)" by simp
  note rt = flag_roundtrip_wide [OF this]
  have "conditional_add_flag b x = (if b then add_flag x else x)"
    by (simp add: conditional_add_flag_def add_flag_def)
  then show ?thesis using rt(1) [of x] rt(4) [OF assms] by simp
qed

lemma flag_fn_flags:
  assumes "\<not> is_flagged idx"
  shows "remove_flag (flag_fn True t idx) = idx"
    and "is_flagged (flag_fn True t idx) \<longleftrightarrow>
           idx \<noteq> 0 \<and> text_at t (ucast (idx - 1)) < text_at t (ucast idx)"
  using assms remove_flag_conditional [OF assms] flag_roundtrip_wide(4) [OF _ assms]
  by (auto simp add: flag_fn_def F_conditional_add_flag_def is_flagged_conditional)

lemma text_at_0: "text_at t 0 = 0"
  by (simp add: text_at_def)

lemma text_at_last: "text_at t (text_n t - 1) = 0"
  by (simp add: text_at_def)

lemma nth_two_append: "2 \<le> i \<Longrightarrow> (a # b # xs) ! i = xs ! (i - 2)"
proof -
  assume "2 \<le> i"
  then obtain k where "i = Suc (Suc k)" by (metis add_2_eq_Suc le_Suc_ex)
  then show ?thesis by simp
qed

lemma for_loop_one: "for_loop i (Suc i) body s = body i s"
  by (simp add: for_loop_def)

lemma phase0_empty:
  assumes "text_n t = 2" "sa s0 = []" "length (sa01 s0) = 2"
  shows "sort_by_prefix_parallel use_flags t s0 =
           Some ([\<lparr> group_left = 2, group_size = 1, group_depth = 1,
                     group_sorted = True, group_final = False \<rparr>],
                 s0\<lparr> sa01 := [1, 0] \<rparr>)"
proof -
  obtain a b where ab: "sa01 s0 = [a, b]"
    using assms(3) by (cases "sa01 s0"; cases "tl (sa01 s0)") auto
  have two: "for_loop 0 2 body s = Option.bind (body 0 s) (body 1)" for body and s :: sa_type
    using for_loop_Suc [of 0 1 body s] by (simp add: for_loop_one numeral_2_eq_2)
  have f0: "flag_step use_flags t 0 (s0\<lparr>sa01 := [0, 1]\<rparr>) = Some (s0\<lparr>sa01 := [0, 1]\<rparr>)"
    by (simp add: flag_step_def sa_get_def sa_set_def)
  have f1: "flag_step use_flags t 1 (s0\<lparr>sa01 := [0, 1]\<rparr>) = Some (s0\<lparr>sa01 := [0, 1]\<rparr>)"
    by (simp add: flag_step_def sa_get_def sa_set_def text_at_def assms(1)
        F_conditional_add_flag_def conditional_add_flag_def)
  show ?thesis
    using f0 f1
    by (simp add: sort_by_prefix_parallel_def Let_def assms(1,2) ab sa_set_0 sa_set_1
        for_loop_empty sort_caller_range_def ips4o_sort_def two)
qed

text \<open>
  Claim C3, amended.  With the flag policy enabled (\<^verbatim>\<open>flag_type_bitset\<close>, the
  default \<^verbatim>\<open>use_flags = true\<close> of \<^verbatim>\<open>gsaca_for_lce_wrapped\<close>) and an adjusted length
  \<open>n\<close> of at most \<open>2 ^ 31\<close>, phase 0 returns, and every entry \<open>i < n\<close> of the
  suffix array carries the flag bit if and only if, through the text view, the
  symbol before the entry's suffix is strictly less than its first symbol.
  Without flags (\<^verbatim>\<open>flag_type_none\<close>, which \<^verbatim>\<open>gsaca_for_lce\<close> selects) phase 0
  returns too, and no entry carries the flag bit.
\<close>

theorem phase0_flags:
  assumes "unat (text_n t) = n" "2 \<le> n" "n \<le> 2 ^ 31" "length (text_buf t) = n - 2"
    and "length (sa s0) = n - 2" "length (sa01 s0) = 2" "unat (sa_n s0) = n" "i < n"
  shows "(\<exists>G s1 e. sort_by_prefix_parallel True t s0 = Some (G, s1)
            \<and> sa_get s1 (of_nat i) = Some e
            \<and> (is_flagged e \<longleftrightarrow>
                 text_at t (ucast (remove_flag e - 1)) < text_at t (ucast (remove_flag e))))
         \<and> (\<exists>G s1 e. sort_by_prefix_parallel False t s0 = Some (G, s1)
            \<and> sa_get s1 (of_nat i) = Some e \<and> \<not> is_flagged e)"
proof -
  have n32: "n < 2 ^ 32" using assms(3) by simp
  have i32: "i < 2 ^ 32" using assms(8) n32 by simp
  have tn: "text_n t = of_nat n" using assms(1) by (metis of_nat_unat ucast_id)
  have "(ucast (of_nat (n - 1) :: 32 word) :: 64 word) = of_nat (n - 1)"
    using n32 by (intro ucast_of_nat_32_64) simp
  also have "\<dots> = text_n t - 1"
    using assms(2) unfolding tn by (subst of_nat_diff) simp_all
  finally have last: "(ucast (of_nat (n - 1) :: 32 word) :: 64 word) = text_n t - 1" .
  have nf_last: "\<not> is_flagged (of_nat (n - 1) :: 32 word)"
    using assms(2,3) by (intro not_flagged_small) simp
  have nf0: "\<not> is_flagged (0 :: 32 word)"
    using not_flagged_small [of 0] by simp
  have rf: "\<not> is_flagged e \<Longrightarrow> remove_flag e = e" for e :: "32 word"
    using flag_roundtrip_wide(4) [of e] by simp
  have side: "is_flagged e \<longleftrightarrow> text_at t (ucast (remove_flag e - 1)) < text_at t (ucast (remove_flag e))"
    if "e = of_nat (n - 1) \<or> e = 0" for e :: "32 word"
  proof -
    have nf: "\<not> is_flagged e" using that nf_last nf0 by auto
    have "text_at t (ucast e) = 0"
      using that
    proof
      assume "e = of_nat (n - 1)"
      then show ?thesis unfolding last by (simp only: last text_at_last)
    next
      assume "e = 0"
      then show ?thesis by (simp add: text_at_0)
    qed
    then show ?thesis using nf by (simp add: rf [OF nf])
  qed
  have interior: "\<not> is_flagged idx \<and> idx \<noteq> 0" if "idx \<in> set (bucket_order t n)" for idx
  proof -
    from that have "idx \<in> of_nat ` {1..<n - 1}" by (simp only: set_bucket_order)
    then obtain p where p: "idx = of_nat p" "1 \<le> p" "p < n - 1"
      by (auto simp add: image_iff)
    have "unat idx = p" using p n32 by (simp add: unat_of_nat)
    then have "idx \<noteq> 0" using p(2) by auto
    moreover have "\<not> is_flagged idx" unfolding p(1) using p(3) assms(3) by (intro not_flagged_small) simp
    ultimately show ?thesis by simp
  qed
  have result: "\<exists>G s1. sort_by_prefix_parallel uf t s0 = Some (G, s1)
      \<and> logical s1 = [of_nat (n - 1), 0] @ map (flag_fn uf t) (bucket_order t n)
      \<and> length (sa01 s1) = 2" for uf
  proof (cases "n = 2")
    case True
    then have "text_n t = 2" "sa s0 = []" "bucket_order t n = []"
      using tn assms(5) by (simp_all add: bucket_order_def ips4o_sort_def)
    then show ?thesis
      using phase0_empty [OF \<open>text_n t = 2\<close> \<open>sa s0 = []\<close> assms(6), of uf] True
      by (simp add: logical_def)
  next
    case False
    then have "3 \<le> n" using assms(2) by simp
    from phase0 [OF assms(1) this n32 assms(5,6,7), of uf] show ?thesis by blast
  qed
  have len: "length (bucket_order t n) = n - 2" by (rule length_bucket_order)
  have get: "sa_get s1 (of_nat i) = Some (logical s1 ! i)"
    if "length (sa01 s1) = 2" "length (logical s1) = n" for s1
    using sa_get_logical [OF that(1) i32] that(2) assms(8) by simp
  show ?thesis
  proof (intro conjI)
    obtain G s1 where r: "sort_by_prefix_parallel True t s0 = Some (G, s1)"
      "logical s1 = [of_nat (n - 1), 0] @ map (flag_fn True t) (bucket_order t n)"
      "length (sa01 s1) = 2"
      using result [of True] by blast
    have ln: "length (logical s1) = n" using assms(2) by (simp add: r(2) len)
    let ?e = "logical s1 ! i"
    have "is_flagged ?e \<longleftrightarrow>
            text_at t (ucast (remove_flag ?e - 1)) < text_at t (ucast (remove_flag ?e))"
    proof (cases "i < 2")
      case True
      then have "?e = of_nat (n - 1) \<or> ?e = 0"
        by (cases i) (auto simp add: r(2) less_Suc_eq numeral_2_eq_2)
      then show ?thesis by (rule side)
    next
      case False
      then have i2: "2 \<le> i" "i - 2 < n - 2" using assms(8) by simp_all
      have "?e = map (flag_fn True t) (bucket_order t n) ! (i - 2)"
        unfolding r(2) append_Cons append_Nil by (rule nth_two_append [OF i2(1)])
      then have e: "?e = flag_fn True t (bucket_order t n ! (i - 2))" "i - 2 < n - 2"
        using i2(2) by (simp_all add: len)
      then have "bucket_order t n ! (i - 2) \<in> set (bucket_order t n)"
        by (simp add: len)
      from interior [OF this] show ?thesis
        unfolding e(1) by (simp add: flag_fn_flags)
    qed
    then show "\<exists>G s1 e. sort_by_prefix_parallel True t s0 = Some (G, s1)
            \<and> sa_get s1 (of_nat i) = Some e
            \<and> (is_flagged e \<longleftrightarrow>
                 text_at t (ucast (remove_flag e - 1)) < text_at t (ucast (remove_flag e)))"
      using r(1) get [OF r(3) ln] by blast
  next
    obtain G s1 where r: "sort_by_prefix_parallel False t s0 = Some (G, s1)"
      "logical s1 = [of_nat (n - 1), 0] @ map (flag_fn False t) (bucket_order t n)"
      "length (sa01 s1) = 2"
      using result [of False] by blast
    have ln: "length (logical s1) = n" using assms(2) by (simp add: r(2) len)
    let ?e = "logical s1 ! i"
    have "\<not> is_flagged ?e"
    proof (cases "i < 2")
      case True
      then have "?e = of_nat (n - 1) \<or> ?e = 0"
        by (cases i) (auto simp add: r(2) less_Suc_eq numeral_2_eq_2)
      then show ?thesis using nf_last nf0 by auto
    next
      case False
      then have i2: "2 \<le> i" "i - 2 < n - 2" using assms(8) by simp_all
      have "?e = map (flag_fn False t) (bucket_order t n) ! (i - 2)"
        unfolding r(2) append_Cons append_Nil by (rule nth_two_append [OF i2(1)])
      then have e: "?e = bucket_order t n ! (i - 2)" "i - 2 < n - 2"
        using i2(2) by (simp_all add: len flag_fn_no_flags)
      then have "bucket_order t n ! (i - 2) \<in> set (bucket_order t n)"
        by (simp add: len)
      from interior [OF this] show ?thesis unfolding e(1) by simp
    qed
    then show "\<exists>G s1 e. sort_by_prefix_parallel False t s0 = Some (G, s1)
            \<and> sa_get s1 (of_nat i) = Some e \<and> \<not> is_flagged e"
      using r(1) get [OF r(3) ln] by blast
  qed
qed

text \<open>
  Witness for C3: the text \<open>ab\<close>, entry 2 of the suffix array.
\<close>

theorem phase0_flags_witness:
  "(\<exists>G s1 e. sort_by_prefix_parallel True \<lparr> text_n = 4, text_buf = [97, 98] \<rparr>
                 \<lparr> sa_n = 4, sa = [0, 0], sa01 = [0, 0] \<rparr> = Some (G, s1)
            \<and> sa_get s1 (of_nat 2) = Some e
            \<and> (is_flagged e \<longleftrightarrow>
                 text_at \<lparr> text_n = 4, text_buf = [97, 98 :: 8 word] \<rparr> (ucast (remove_flag e - 1))
                 < text_at \<lparr> text_n = 4, text_buf = [97, 98 :: 8 word] \<rparr> (ucast (remove_flag e))))"
  using phase0_flags [of "\<lparr> text_n = 4, text_buf = [97, 98] \<rparr>" 4
      "\<lparr> sa_n = 4, sa = [0, 0], sa01 = [0, 0] \<rparr>" 2]
  by simp

text \<open>
  Claim C3, counterexample.  \<^verbatim>\<open>gsaca_for_lce\<close> calls the wrapped function with
  \<^verbatim>\<open>use_flags = false\<close>.  For the text \<open>ab\<close>, phase 0 as called there leaves the
  suffix 2 at entry 3 without the flag bit, under \<^verbatim>\<open>flag_type_bitset::is_flagged\<close>
  and under the policy's own \<^verbatim>\<open>is_flagged\<close>, although the symbol before it is
  strictly less than its first symbol.
\<close>

theorem phase0_no_flags_under_gsaca_for_lce:
  "sort_by_prefix_parallel False \<lparr> text_n = 2 + 2, text_buf = [97, 98] \<rparr>
       \<lparr> sa_n = 2 + 2, sa = [0, 0], sa01 = [0, 0] \<rparr>
     = Some ([\<lparr> group_left = 2, group_size = 1, group_depth = 1, group_sorted = True, group_final = False \<rparr>,
              \<lparr> group_left = 3, group_size = 1, group_depth = 1, group_sorted = True, group_final = False \<rparr>],
             \<lparr> sa_n = 4, sa = [1, 2], sa01 = [3, 0] \<rparr>)
   \<and> sa_get \<lparr> sa_n = 4, sa = [1, 2], sa01 = [3, 0] \<rparr> 3 = Some 2
   \<and> text_at \<lparr> text_n = 2 + 2, text_buf = [97, 98 :: 8 word] \<rparr> (ucast ((2 :: 32 word) - 1))
       < text_at \<lparr> text_n = 2 + 2, text_buf = [97, 98 :: 8 word] \<rparr> (ucast (2 :: 32 word))
   \<and> \<not> is_flagged (2 :: 32 word) \<and> \<not> F_is_flagged False (2 :: 32 word)"
  by code_simp

subsection \<open>The order phase 0 leaves, and the final decrement\<close>

lemma sorted_bucket_order: "sorted (map (comp_key t) (bucket_order t n))"
  by (simp add: bucket_order_def ips4o_sort_sort_key [of "comp t" "comp_key t", OF comp_comp_key])

lemma bucket_views_sorted:
  assumes "j \<le> k" "k < n - 2"
  shows "text_at t (ucast (bucket_order t n ! j)) \<le> text_at t (ucast (bucket_order t n ! k))"
proof -
  have "map (comp_key t) (bucket_order t n) ! j \<le> map (comp_key t) (bucket_order t n) ! k"
    using assms by (intro sorted_nth_mono [OF sorted_bucket_order]) (simp_all add: length_bucket_order)
  then have "comp_key t (bucket_order t n ! j) \<le> comp_key t (bucket_order t n ! k)"
    using assms by (simp add: length_bucket_order)
  then show ?thesis
    by (auto simp add: comp_key_def less_eq_prod_def)
qed

lemma decrement_loop:
  assumes len: "length (sa01 s) = 2" "length (logical s) = n" "n < 2 ^ 32" "unat (sa_n s) = n"
  shows "\<exists>s'. for_loop 0 n decrement_step s = Some s'
           \<and> logical s' = map (\<lambda>v. v - 1) (logical s)
           \<and> length (sa01 s') = 2"
proof -
  let ?f = "\<lambda>v :: 32 word. v - 1"
  have "\<exists>s'. for_loop 0 n decrement_step s = Some s' \<and> rewritten_upto ?f (logical s) n s'"
  proof (rule for_loop_invariant [where P = "rewritten_upto ?f (logical s)"])
    show "0 \<le> n" by simp
    show "rewritten_upto ?f (logical s) 0 s"
      using len by (simp add: rewritten_upto_def)
  next
    fix i x
    assume i: "0 \<le> i" "i < n" and x: "rewritten_upto ?f (logical s) i x"
    have lx: "length (sa01 x) = 2" "unat (sa_n x) = n"
      and eq: "logical x = map ?f (take i (logical s)) @ drop i (logical s)"
      using x len by (simp_all add: rewritten_upto_def)
    have lnx: "length (logical x) = n" using len(2) i by (simp add: eq)
    have i32: "i < 2 ^ 32" using i len(3) by simp
    have xi: "logical x ! i = logical s ! i"
      using i len(2) by (simp add: eq nth_append)
    have g: "sa_get x (of_nat i) = Some (logical s ! i)"
      using sa_get_logical [OF lx(1) i32] i lnx by (simp add: xi)
    obtain y where y: "sa_set x (of_nat i) (logical s ! i - 1) = Some y"
      "logical y = (logical x)[i := logical s ! i - 1]"
      "length (sa01 y) = 2" "sa_n y = sa_n x"
      using sa_set_logical [OF lx(1) i32] i lnx by metis
    have "logical y = map ?f (take (Suc i) (logical s)) @ drop (Suc i) (logical s)"
      using i len(2) unfolding y(2) eq
      by (simp add: take_Suc_conv_app_nth list_update_append Cons_nth_drop_Suc [symmetric])
    then have "rewritten_upto ?f (logical s) (Suc i) y"
      using lx y(3,4) len(2) by (simp add: rewritten_upto_def)
    moreover have "decrement_step i x = Some y"
      using y(1) by (simp add: decrement_step_def g)
    ultimately show "\<exists>y. decrement_step i x = Some y \<and> rewritten_upto ?f (logical s) (Suc i) y"
      by blast
  qed
  then show ?thesis
    using len(2) by (auto simp add: rewritten_upto_def)
qed

text \<open>
  When phase 0 and the two phases that follow return, the wrapped function
  returns too, and each of the \<^verbatim>\<open>n\<close> entries of the logical suffix array is the
  entry phase 2 left there, less one.
\<close>

lemma gsaca_for_lce_wrapped_decrements:
  assumes "sort_by_prefix_parallel use_flags t s0 = Some (G1, s1)"
    and "phase_1 use_flags s1 (replicate (unat (text_n t)) 0) G1 = Some (G2, s2, isa2)"
    and "phase_2 use_flags s2 isa2 G2 = Some (s3, isa3)"
    and "length (sa01 s3) = 2" "length (logical s3) = unat (text_n t)"
    and "unat (text_n t) < 2 ^ 32" "sa_n s3 = text_n t"
  shows "\<exists>s'. gsaca_for_lce_wrapped phase_1 phase_2 use_flags t s0 = Some s'
           \<and> logical s' = map (\<lambda>v. v - 1) (logical s3)"
proof -
  obtain s' where "for_loop 0 (unat (text_n t)) decrement_step s3 = Some s'"
    "logical s' = map (\<lambda>v. v - 1) (logical s3)"
    using decrement_loop [OF assms(4,5,6)] assms(7) by auto
  then show ?thesis
    using assms(1,2,3) by (simp add: gsaca_for_lce_wrapped_def Let_def)
qed

end
